theory Spec2Isabelle
  imports Main "HOL-Library.AList" "HOL-Library.Char_ord" "HOL-Library.List_Lexorder"
    "HOL-Library.Sublist"
begin

section \<open>Phobos flow manager: a shallow embedding of \<^verbatim>\<open>flow.py\<close>\<close>

text \<open>
  The development follows \<^verbatim>\<open>src/flow.py\<close>: the class \<^verbatim>\<open>NameSet\<close>, the filter parser
  \<^verbatim>\<open>FlowManager._parse_filter\<close>, the memoised property \<^verbatim>\<open>FlowManager._name_source_map\<close>
  and the orchestration loop \<^verbatim>\<open>FlowManager.run\<close>.

  Strings are \<^typ>\<open>string\<close>, lists of characters with the code points 0 to 255;
  positions and slices count characters. Python sets of strings are \<^typ>\<open>string set\<close>. Python
  dictionaries are association lists in insertion order (the iteration order of
  \<^verbatim>\<open>dict\<close>), updated in place with \<^const>\<open>AList.update\<close>. Exceptions are values of
  the datatype \<open>exn\<close>; a function that can raise returns a sum whose left injection
  is the exception.
\<close>

subsection \<open>Exceptions\<close>

text \<open>
  The handlers of \<^verbatim>\<open>run\<close> distinguish three kinds of exception objects:
  \<^verbatim>\<open>except KeyboardInterrupt: raise\<close> re-raises, \<^verbatim>\<open>except Exception as e\<close> reports, and every
  other \<^verbatim>\<open>BaseException\<close> (for instance \<^verbatim>\<open>SystemExit\<close>, or the module's own
  \<^verbatim>\<open>FilterParseError(BaseException)\<close>) matches neither clause and propagates.
  \<open>ExceptionSub\<close> and \<open>BaseExceptionSub\<close> carry \<^verbatim>\<open>type(e).__name__\<close> and \<^verbatim>\<open>str(e)\<close>.
\<close>

datatype exn =
    FilterParseError string
  | KeyboardInterrupt
  | ExceptionSub string string
  | BaseExceptionSub string string

subsection \<open>NameSet\<close>

text \<open>
  \<^verbatim>\<open>str.strip()\<close> without argument removes leading and trailing whitespace, the
  characters for which \<^verbatim>\<open>str.isspace\<close> holds. Among the code points below 256, which are
  the characters of \<^typ>\<open>char\<close>, these are in Python 3 the codes 9 to 13 (tab, line
  feed, vertical tab, form feed, carriage return), 28 to 31 (the four separators), 32
  (space), 133 (next line, U+0085) and 160 (no-break space, U+00A0).
\<close>

definition isspace :: "char \<Rightarrow> bool" where
  "isspace c = (of_char c \<in> {9, 10, 11, 12, 13, 28, 29, 30, 31, 32, 133, 160 :: nat})"

definition strip :: "string \<Rightarrow> string" where
  "strip s = rev (dropWhile isspace (rev (dropWhile isspace s)))"

text \<open>
  \<^verbatim>\<open>
  def add(self, name):
      name = name.strip()
      if name:
          set.add(self, name)
  \<close>
\<close>

definition NameSet_add :: "string set \<Rightarrow> string \<Rightarrow> string set" where
  "NameSet_add self name =
     (let name = strip name in if name \<noteq> [] then insert name self else self)"

subsection \<open>The filter parser\<close>

text \<open>\<^verbatim>\<open>str(n)\<close> for a non-negative integer, as \<^verbatim>\<open>'{}'.format(pos_start)\<close> renders it.\<close>

fun string_of_nat :: "nat \<Rightarrow> string" where
  "string_of_nat n =
     (if n < 10 then [char_of (48 + n)]
      else string_of_nat (n div 10) @ [char_of (48 + n mod 10)])"

declare string_of_nat.simps [simp del]

text \<open>\<^verbatim>\<open>name_filter[a:b]\<close> for \<open>0 \<le> a\<close>, \<open>0 \<le> b\<close>.\<close>

definition slice :: "string \<Rightarrow> nat \<Rightarrow> nat \<Rightarrow> string" where
  "slice s a b = take (b - a) (drop a s)"

text \<open>
  \<^verbatim>\<open>re.finditer('[(),]', name_filter)\<close>: the matches in order, each given by
  \<^verbatim>\<open>match.start()\<close> and \<^verbatim>\<open>match.group()\<close>; \<^verbatim>\<open>match.end()\<close> is \<^verbatim>\<open>match.start() + 1\<close>.
\<close>

definition special :: "char \<Rightarrow> bool" where
  "special c = (c = CHR ''('' \<or> c = CHR '')'' \<or> c = CHR '','')"

definition finditer :: "string \<Rightarrow> (nat \<times> char) list" where
  "finditer s = filter (\<lambda>(i, c). special c) (zip [0..<length s] s)"

text \<open>\<^verbatim>\<open>'unexpected character "{}" at position {}'.format(symbol, pos_start)\<close>\<close>

definition unexpected_msg :: "char \<Rightarrow> nat \<Rightarrow> string" where
  "unexpected_msg symbol pos_start =
     ''unexpected character '' @ [CHR 0x22, symbol, CHR 0x22] @ '' at position ''
       @ string_of_nat pos_start"

text \<open>
  The body of the \<^verbatim>\<open>for match in re.finditer(...)\<close> loop, with the loop state
  \<^verbatim>\<open>(inarg, pos_current, name_set)\<close>.
\<close>

fun parse_loop ::
  "string \<Rightarrow> (nat \<times> char) list \<Rightarrow> bool \<Rightarrow> nat \<Rightarrow> string set \<Rightarrow> exn + (bool \<times> nat \<times> string set)"
where
  "parse_loop name_filter [] inarg pos_current name_set = Inr (inarg, pos_current, name_set)"
| "parse_loop name_filter ((pos_start, symbol) # ms) inarg pos_current name_set =
     (if symbol = CHR '','' \<and> \<not> inarg then
        parse_loop name_filter ms inarg (pos_start + 1)
          (NameSet_add name_set (slice name_filter pos_current pos_start))
      else if symbol = CHR '','' \<and> inarg then
        parse_loop name_filter ms inarg pos_current name_set
      else if symbol = CHR ''('' \<and> \<not> inarg then
        parse_loop name_filter ms True pos_current name_set
      else if symbol = CHR '')'' \<and> inarg then
        parse_loop name_filter ms False pos_current name_set
      else Inl (FilterParseError (unexpected_msg symbol pos_start)))"

definition parse_filter :: "string \<Rightarrow> exn + string set" where
  "parse_filter name_filter =
     (case parse_loop name_filter (finditer name_filter) False 0 {} of
        Inl e \<Rightarrow> Inl e
      | Inr (inarg, pos_current, name_set) \<Rightarrow>
          if inarg then Inl (FilterParseError ''parenthesis is not closed'')
          else Inr (NameSet_add name_set (drop pos_current name_filter)))"


subsection \<open>Collaborators\<close>

text \<open>
  Miners and writers are Python objects. They are modelled as references of the types
  \<open>'m\<close> and \<open>'w\<close>, compared by identity as the default \<^verbatim>\<open>__eq__\<close> and
  \<^verbatim>\<open>__hash__\<close> do, and what they do is read from an environment:
  \<^item> \<open>type_name\<close> is \<^verbatim>\<open>type(miner).__name__\<close>;
  \<^item> \<open>contname_iter\<close> is the finite sequence of names that \<^verbatim>\<open>miner.contname_iter()\<close> yields;
  \<^item> \<open>get_data\<close> is \<^verbatim>\<open>miner.get_data(source_name)\<close>, which returns data or raises and
    may change the state \<open>'s\<close> of the outside world;
  \<^item> \<open>writer_write\<close> is \<^verbatim>\<open>writer.write(modified_name, container_data)\<close>, likewise.
\<close>

record ('m, 'w, 'd, 's) env =
  type_name :: "'m \<Rightarrow> string"
  contname_iter :: "'m \<Rightarrow> string list"
  get_data :: "'m \<Rightarrow> string \<Rightarrow> 's \<Rightarrow> (exn + 'd) \<times> 's"
  writer_write :: "'w \<Rightarrow> string \<Rightarrow> 'd \<Rightarrow> 's \<Rightarrow> (exn + unit) \<times> 's"

subsection \<open>The name resolver\<close>

type_synonym 'm name_miner_map = "(string \<times> 'm list) list"

type_synonym 'm name_source_map = "('m \<times> (string \<times> string) list) list"

text \<open>
  \<^verbatim>\<open>
  miners = name_miner_map.setdefault(source_name, [])
  miners.append(miner)
  \<close>
  \<^const>\<open>AList.update\<close> replaces the value of a present key in place and puts an absent
  key last, as assignment to a \<^verbatim>\<open>dict\<close> does.
\<close>

definition add_producer :: "'m name_miner_map \<Rightarrow> string \<Rightarrow> 'm \<Rightarrow> 'm name_miner_map" where
  "add_producer name_miner_map source_name miner =
     (let miners = (case map_of name_miner_map source_name of None \<Rightarrow> [] | Some ms \<Rightarrow> ms)
      in AList.update source_name (miners @ [miner]) name_miner_map)"

text \<open>
  \<^verbatim>\<open>
  name_miner_map = {}
  for miner in self._miners:
      for source_name in miner.contname_iter():
          ...
  \<close>
\<close>

definition build_name_miner_map ::
  "('m, 'w, 'd, 's) env \<Rightarrow> 'm list \<Rightarrow> 'm name_miner_map" where
  "build_name_miner_map E miners =
     foldl (\<lambda>name_miner_map miner.
              foldl (\<lambda>name_miner_map source_name. add_producer name_miner_map source_name miner)
                name_miner_map (contname_iter E miner))
       [] miners"

text \<open>
  \<^verbatim>\<open>
  miner_containers = self.__name_source_map.setdefault(miner, {})
  miner_containers[modified_name] = source_name
  \<close>
\<close>

definition register ::
  "'m name_source_map \<Rightarrow> 'm \<Rightarrow> string \<Rightarrow> string \<Rightarrow> 'm name_source_map" where
  "register name_source_map miner modified_name source_name =
     (let miner_containers = (case map_of name_source_map miner of None \<Rightarrow> [] | Some c \<Rightarrow> c)
      in AList.update miner (AList.update modified_name source_name miner_containers)
           name_source_map)"

text \<open>\<^verbatim>\<open>u'{}_{}'.format(source_name, type(miner).__name__)\<close>\<close>

definition renamed :: "('m, 'w, 'd, 's) env \<Rightarrow> string \<Rightarrow> 'm \<Rightarrow> string" where
  "renamed E source_name miner = source_name @ ''_'' @ type_name E miner"

text \<open>
  The body of \<^verbatim>\<open>for source_name, miners in name_miner_map.items()\<close>. In the \<^verbatim>\<open>else\<close>
  branch the source reads \<^verbatim>\<open>miners[0]\<close>, which raises \<^verbatim>\<open>IndexError\<close> on an empty list;
  every list of \<^verbatim>\<open>name_miner_map\<close> has been appended to when it was created, so that
  case does not occur (lemma \<open>build_name_miner_map_nonempty\<close> below) and the model
  leaves the map as it is there.
\<close>

definition resolve_item ::
  "('m, 'w, 'd, 's) env \<Rightarrow> 'm name_source_map \<Rightarrow> string \<times> 'm list \<Rightarrow> 'm name_source_map" where
  "resolve_item E name_source_map item =
     (case item of (source_name, miners) \<Rightarrow>
        if length miners > 1 then
          foldl (\<lambda>name_source_map miner.
                   register name_source_map miner (renamed E source_name miner) source_name)
            name_source_map miners
        else
          (case miners of
             [] \<Rightarrow> name_source_map
           | miner # _ \<Rightarrow> register name_source_map miner source_name source_name))"

definition compute_name_source_map ::
  "('m, 'w, 'd, 's) env \<Rightarrow> 'm list \<Rightarrow> 'm name_source_map" where
  "compute_name_source_map E miners =
     foldl (resolve_item E) [] (build_name_miner_map E miners)"

subsection \<open>The flow manager and its memoised property\<close>

text \<open>
  \<^verbatim>\<open>
  def __init__(self, miners, writers):
      self._miners = miners
      self._writers = writers
      self.__name_source_map = None
  \<close>
\<close>

record ('m, 'w) flow_manager =
  fm_miners :: "'m list"
  fm_writers :: "'w list"
  fm_cache :: "'m name_source_map option"

definition FlowManager :: "'m list \<Rightarrow> 'w list \<Rightarrow> ('m, 'w) flow_manager" where
  "FlowManager miners writers = \<lparr>fm_miners = miners, fm_writers = writers, fm_cache = None\<rparr>"

text \<open>
  The property \<^verbatim>\<open>_name_source_map\<close>: it returns the mapping and the object, whose
  cache it has filled when that was \<^verbatim>\<open>None\<close>.
\<close>

definition name_source_map ::
  "('m, 'w, 'd, 's) env \<Rightarrow> ('m, 'w) flow_manager \<Rightarrow> 'm name_source_map \<times> ('m, 'w) flow_manager"
where
  "name_source_map E self =
     (case fm_cache self of
        None \<Rightarrow>
          (let m = compute_name_source_map E (fm_miners self)
           in (m, self\<lparr>fm_cache := Some m\<rparr>))
      | Some m \<Rightarrow> (m, self))"

subsection \<open>The run\<close>

text \<open>
  What a run does to the outside is recorded as a list of events, in order: the lines it
  prints and the calls it makes, each call with what it returned or raised.
  \<^item> \<open>MinerHeader miner\<close>: \<^verbatim>\<open>print(u'Miner {}:'.format(type(miner).__name__))\<close>;
  \<^item> \<open>Processing miner modified_name\<close>: \<^verbatim>\<open>print(u'  processing {}'.format(modified_name))\<close>
    and \<^verbatim>\<open>processed_set.add(modified_name)\<close>;
  \<^item> \<open>Fetch miner modified_name source_name r\<close>: the call \<^verbatim>\<open>miner.get_data(source_name)\<close> made
    for \<^verbatim>\<open>modified_name\<close>, with its outcome \<open>r\<close>;
  \<^item> \<open>FetchFailed miner modified_name e\<close>: \<^verbatim>\<open>print(u'    failed to fetch data - {}: {}'...)\<close>;
  \<^item> \<open>Write writer modified_name data r\<close>: the call
    \<^verbatim>\<open>writer.write(modified_name, container_data)\<close>, with its outcome \<open>r\<close>;
  \<^item> \<open>WriteFailed writer modified_name e\<close>:
    \<^verbatim>\<open>print(u'    failed to write data with {} - {}: {}'...)\<close>;
  \<^item> \<open>MissingHeader\<close>: \<^verbatim>\<open>print('Containers which were requested, but are not available:')\<close>;
  \<^item> \<open>MissingName modified_name\<close>: \<^verbatim>\<open>print(u'  {}'.format(modified_name))\<close>.
\<close>

datatype ('m, 'w, 'd) event =
    MinerHeader 'm
  | Processing 'm string
  | Fetch 'm string string "exn + 'd"
  | FetchFailed 'm string exn
  | Write 'w string 'd "exn + unit"
  | WriteFailed 'w string exn
  | MissingHeader
  | MissingName string

text \<open>\<^verbatim>\<open>isinstance(e, KeyboardInterrupt)\<close> and \<^verbatim>\<open>isinstance(e, Exception)\<close>.\<close>

fun is_KeyboardInterrupt :: "exn \<Rightarrow> bool" where
  "is_KeyboardInterrupt KeyboardInterrupt = True"
| "is_KeyboardInterrupt _ = False"

fun is_Exception :: "exn \<Rightarrow> bool" where
  "is_Exception (ExceptionSub _ _) = True"
| "is_Exception _ = False"

text \<open>
  \<^verbatim>\<open>
  for writer in self._writers:
      try:
          writer.write(modified_name, container_data)
      except KeyboardInterrupt:
          raise
      except Exception as e:
          print(u'    failed to write data with {} - {}: {}'.format(...))
  \<close>
  A loop returns the exception that left it, if any, the events it produced and the
  state of the world.
\<close>

fun write_loop ::
  "('m, 'w, 'd, 's) env \<Rightarrow> 'w list \<Rightarrow> string \<Rightarrow> 'd \<Rightarrow> 's
     \<Rightarrow> exn option \<times> ('m, 'w, 'd) event list \<times> 's"
where
  "write_loop E [] modified_name container_data s = (None, [], s)"
| "write_loop E (writer # ws) modified_name container_data s =
     (case writer_write E writer modified_name container_data s of
        (Inr u, s1) \<Rightarrow>
          (case write_loop E ws modified_name container_data s1 of
             (r, tr, s2) \<Rightarrow> (r, Write writer modified_name container_data (Inr u) # tr, s2))
      | (Inl e, s1) \<Rightarrow>
          if is_KeyboardInterrupt e then
            (Some e, [Write writer modified_name container_data (Inl e)], s1)
          else if is_Exception e then
            (case write_loop E ws modified_name container_data s1 of
               (r, tr, s2) \<Rightarrow>
                 (r, Write writer modified_name container_data (Inl e)
                       # WriteFailed writer modified_name e # tr, s2))
          else (Some e, [Write writer modified_name container_data (Inl e)], s1))"

text \<open>
  \<^verbatim>\<open>
  for modified_name in sorted(miner_containers):
      print(u'  processing {}'.format(modified_name))
      processed_set.add(modified_name)
      source_name = miner_names_map[modified_name]
      try:
          container_data = miner.get_data(source_name)
      except KeyboardInterrupt:
          raise
      except Exception as e:
          print(u'    failed to fetch data - {}: {}'.format(type(e).__name__, e))
      else:
          for writer in self._writers: ...
  \<close>
  The loop also returns \<^verbatim>\<open>processed_set\<close>. The subscription \<^verbatim>\<open>miner_names_map[modified_name]\<close>
  raises \<^verbatim>\<open>KeyError\<close> for an absent key, outside the \<^verbatim>\<open>try\<close>.
\<close>

fun names_loop ::
  "('m, 'w, 'd, 's) env \<Rightarrow> 'w list \<Rightarrow> 'm \<Rightarrow> (string \<times> string) list \<Rightarrow> string list
     \<Rightarrow> string set \<Rightarrow> 's \<Rightarrow> exn option \<times> ('m, 'w, 'd) event list \<times> string set \<times> 's"
where
  "names_loop E writers miner miner_names_map [] processed_set s = (None, [], processed_set, s)"
| "names_loop E writers miner miner_names_map (modified_name # ns) processed_set s =
     (let processed_set = insert modified_name processed_set in
      case map_of miner_names_map modified_name of
        None \<Rightarrow>
          (Some (ExceptionSub ''KeyError'' modified_name),
           [Processing miner modified_name], processed_set, s)
      | Some source_name \<Rightarrow>
          (case get_data E miner source_name s of
             (Inl e, s1) \<Rightarrow>
               if is_KeyboardInterrupt e then
                 (Some e, [Processing miner modified_name,
                           Fetch miner modified_name source_name (Inl e)], processed_set, s1)
               else if is_Exception e then
                 (case names_loop E writers miner miner_names_map ns processed_set s1 of
                    (r, tr, P, s2) \<Rightarrow>
                      (r, Processing miner modified_name
                            # Fetch miner modified_name source_name (Inl e)
                            # FetchFailed miner modified_name e # tr, P, s2))
               else
                 (Some e, [Processing miner modified_name,
                           Fetch miner modified_name source_name (Inl e)], processed_set, s1)
           | (Inr container_data, s1) \<Rightarrow>
               (case write_loop E writers modified_name container_data s1 of
                  (Some e, tr, s2) \<Rightarrow>
                    (Some e, Processing miner modified_name
                               # Fetch miner modified_name source_name (Inr container_data)
                               # tr, processed_set, s2)
                | (None, tr, s2) \<Rightarrow>
                    (case names_loop E writers miner miner_names_map ns processed_set s2 of
                       (r, tr', P, s3) \<Rightarrow>
                         (r, Processing miner modified_name
                               # Fetch miner modified_name source_name (Inr container_data)
                               # tr @ tr', P, s3)))))"

text \<open>
  \<^verbatim>\<open>
  for miner in sorted(self._name_source_map, key=self._miners.index):
      miner_names_map = self._name_source_map[miner]
      miner_containers = set(miner_names_map)
      if filter_set:
          miner_containers.intersection_update(filter_set)
      if not miner_containers:
          continue
      print(u'Miner {}:'.format(type(miner).__name__))
      for modified_name in sorted(miner_containers): ...
  \<close>
  Strings are ordered lexicographically by character code, as \<^verbatim>\<open>sorted\<close> orders them.
\<close>

fun miners_loop ::
  "('m, 'w, 'd, 's) env \<Rightarrow> 'w list \<Rightarrow> 'm name_source_map \<Rightarrow> string set \<Rightarrow> 'm list
     \<Rightarrow> string set \<Rightarrow> 's \<Rightarrow> exn option \<times> ('m, 'w, 'd) event list \<times> string set \<times> 's"
where
  "miners_loop E writers nsm filter_set [] processed_set s = (None, [], processed_set, s)"
| "miners_loop E writers nsm filter_set (miner # ms) processed_set s =
     (case map_of nsm miner of
        None \<Rightarrow> (Some (ExceptionSub ''KeyError'' []), [], processed_set, s)
      | Some miner_names_map \<Rightarrow>
          (let miner_containers = set (map fst miner_names_map);
               miner_containers =
                 (if filter_set \<noteq> {} then miner_containers \<inter> filter_set else miner_containers)
           in if miner_containers = {} then
                miners_loop E writers nsm filter_set ms processed_set s
              else
                (case names_loop E writers miner miner_names_map
                        (sorted_list_of_set miner_containers) processed_set s of
                   (Some e, tr, P, s1) \<Rightarrow> (Some e, MinerHeader miner # tr, P, s1)
                 | (None, tr, P, s1) \<Rightarrow>
                     (case miners_loop E writers nsm filter_set ms P s1 of
                        (r, tr', P', s2) \<Rightarrow> (r, MinerHeader miner # tr @ tr', P', s2)))))"

text \<open>
  \<^verbatim>\<open>self._miners.index(miner)\<close>: the first position of \<open>miner\<close>. The source raises
  \<^verbatim>\<open>ValueError\<close> when there is none; \<open>run\<close> below checks for that before it sorts.
\<close>

fun index :: "'a list \<Rightarrow> 'a \<Rightarrow> nat" where
  "index [] x = 0"
| "index (y # ys) x = (if y = x then 0 else Suc (index ys x))"

text \<open>
  \<^verbatim>\<open>
  if filter_set:
      missing_set = filter_set.difference(processed_set)
      if missing_set:
          print('Containers which were requested, but are not available:')
          for modified_name in sorted(missing_set):
              print(u'  {}'.format(modified_name))
  \<close>
\<close>

definition missing_report :: "string set \<Rightarrow> string set \<Rightarrow> ('m, 'w, 'd) event list" where
  "missing_report filter_set processed_set =
     (if filter_set \<noteq> {} then
        (let missing_set = filter_set - processed_set
         in if missing_set \<noteq> {} then
              MissingHeader # map MissingName (sorted_list_of_set missing_set)
            else [])
      else [])"

text \<open>
  \<^verbatim>\<open>run\<close> returns the exception that left it (or \<open>None\<close>), the events, the state of the
  world and the flow manager. The filter is parsed before the property is first read;
  \<^verbatim>\<open>sorted\<close> computes every key before anything is printed. The source reads the
  property \<^verbatim>\<open>_name_source_map\<close> again for every miner; after the first read each of
  them returns the cached mapping, so the model reads it once.
\<close>

definition run ::
  "('m, 'w, 'd, 's) env \<Rightarrow> ('m, 'w) flow_manager \<Rightarrow> string \<Rightarrow> 's
     \<Rightarrow> exn option \<times> ('m, 'w, 'd) event list \<times> 's \<times> ('m, 'w) flow_manager"
where
  "run E self filter_string s =
     (case parse_filter filter_string of
        Inl e \<Rightarrow> (Some e, [], s, self)
      | Inr filter_set \<Rightarrow>
          (case name_source_map E self of
             (nsm, self) \<Rightarrow>
               if \<not> list_all (\<lambda>miner. miner \<in> set (fm_miners self)) (map fst nsm) then
                 (Some (ExceptionSub ''ValueError'' []), [], s, self)
               else
                 (case miners_loop E (fm_writers self) nsm filter_set
                         (sort_key (index (fm_miners self)) (map fst nsm)) {} s of
                    (Some e, tr, P, s1) \<Rightarrow> (Some e, tr, s1, self)
                  | (None, tr, P, s1) \<Rightarrow>
                      (None, tr @ missing_report filter_set P, s1, self))))"


section \<open>Specification-level notions\<close>

subsection \<open>Filter strings\<close>

text \<open>
  A prefix of the filter string is inside a parenthesis group when it has opened more
  groups than it has closed. Position \<open>i\<close> is offending when it holds an open parenthesis
  while inside a group or a close parenthesis while outside; it is a separator when it
  holds a comma outside every group.
\<close>

definition inside :: "string \<Rightarrow> bool" where
  "inside p = (count_list p (CHR ''('') > count_list p (CHR '')''))"

definition offending :: "string \<Rightarrow> nat \<Rightarrow> bool" where
  "offending s i =
     (s ! i = CHR ''('' \<and> inside (take i s) \<or> s ! i = CHR '')'' \<and> \<not> inside (take i s))"

definition first_offending :: "string \<Rightarrow> nat option" where
  "first_offending s = find (offending s) [0..<length s]"

definition separator :: "string \<Rightarrow> nat \<Rightarrow> bool" where
  "separator s i = (s ! i = CHR '','' \<and> \<not> inside (take i s))"

text \<open>
  The pieces of \<open>s\<close> from position \<open>cur\<close> on, cut at the given positions, which are
  left out; the entries of a filter string are its pieces cut at the separators.
\<close>

fun pieces :: "string \<Rightarrow> nat \<Rightarrow> nat list \<Rightarrow> string list" where
  "pieces s cur [] = [drop cur s]"
| "pieces s cur (p # ps) = slice s cur p # pieces s (p + 1) ps"

definition entries :: "string \<Rightarrow> string list" where
  "entries s = pieces s 0 (filter (separator s) [0..<length s])"


text \<open>The names that a list of entries stands for: each one trimmed, the blank ones dropped.\<close>

definition names_of :: "string list \<Rightarrow> string set" where
  "names_of segs = strip ` set segs - {[]}"

text \<open>
  The number that a string of decimal digits denotes, most significant digit first
  (\<^verbatim>\<open>int(s)\<close> on such a string).
\<close>

definition decimal_value :: "string \<Rightarrow> nat" where
  "decimal_value ds = foldl (\<lambda>a c. 10 * a + (of_char c - 48)) 0 ds"

subsection \<open>Namespaces\<close>

text \<open>
  The productions of a miner list: every native name that an enumeration yields, with its
  miner, in the order of the two nested loops. The producers of a native name are the
  miners of its productions, repeated as often as they yield it.
\<close>

definition productions :: "('m, 'w, 'd, 's) env \<Rightarrow> 'm list \<Rightarrow> (string \<times> 'm) list" where
  "productions E miners = concat (map (\<lambda>m. map (\<lambda>n. (n, m)) (contname_iter E m)) miners)"

definition producers_in :: "(string \<times> 'm) list \<Rightarrow> string \<Rightarrow> 'm list" where
  "producers_in prods n = map snd (filter (\<lambda>q. fst q = n) prods)"

definition producers :: "('m, 'w, 'd, 's) env \<Rightarrow> 'm list \<Rightarrow> string \<Rightarrow> 'm list" where
  "producers E miners n = producers_in (productions E miners) n"

text \<open>The native name behind a public name in a miner's bucket, and a miner's public names.\<close>

definition lookup :: "'m name_source_map \<Rightarrow> 'm \<Rightarrow> string \<Rightarrow> string option" where
  "lookup nsm m p = (case map_of nsm m of None \<Rightarrow> None | Some b \<Rightarrow> map_of b p)"

definition public_names :: "'m name_source_map \<Rightarrow> 'm \<Rightarrow> string set" where
  "public_names nsm m = (case map_of nsm m of None \<Rightarrow> {} | Some b \<Rightarrow> set (map fst b))"

text \<open>
  A miner list has fresh names when no native name that some miner yields is the renamed
  form of a native name with several producers.
\<close>

definition fresh_names :: "('m, 'w, 'd, 's) env \<Rightarrow> 'm list \<Rightarrow> bool" where
  "fresh_names E miners =
     list_all (\<lambda>m. list_all (\<lambda>n.
         length (producers E miners n) \<le> 1
         \<or> list_all (\<lambda>m'. renamed E n m \<notin> set (contname_iter E m')) miners)
       (contname_iter E m)) miners"

text \<open>
  The registrations that the second loop of the resolver performs for one item of
  \<^verbatim>\<open>name_miner_map\<close>, as triples of miner, public name and native name.
\<close>

definition regs_of :: "('m, 'w, 'd, 's) env \<Rightarrow> string \<times> 'm list \<Rightarrow> ('m \<times> string \<times> string) list" where
  "regs_of E item =
     (case item of (n, ms) \<Rightarrow>
        if length ms > 1 then map (\<lambda>m. (m, renamed E n m, n)) ms
        else (case ms of [] \<Rightarrow> [] | m # _ \<Rightarrow> [(m, n, n)]))"

definition all_regs :: "('m, 'w, 'd, 's) env \<Rightarrow> 'm list \<Rightarrow> ('m \<times> string \<times> string) list" where
  "all_regs E miners = concat (map (regs_of E) (build_name_miner_map E miners))"

definition register_all ::
  "'m name_source_map \<Rightarrow> ('m \<times> string \<times> string) list \<Rightarrow> 'm name_source_map" where
  "register_all nsm regs = foldl (\<lambda>nsm r. register nsm (fst r) (fst (snd r)) (snd (snd r))) nsm regs"

subsection \<open>Reading a list of events\<close>

text \<open>
  What a list of events says, in order: the miners announced, the names whose processing
  began, the fetches made (miner, public name, native name), the data that fetches
  returned (public name, data), the writes made (writer, public name, data) and the names
  reported as missing.
\<close>

fun header_of :: "('m, 'w, 'd) event \<Rightarrow> 'm list" where
  "header_of (MinerHeader m) = [m]"
| "header_of _ = []"

fun processing_of :: "('m, 'w, 'd) event \<Rightarrow> ('m \<times> string) list" where
  "processing_of (Processing m p) = [(m, p)]"
| "processing_of _ = []"

fun fetch_of :: "('m, 'w, 'd) event \<Rightarrow> ('m \<times> string \<times> string) list" where
  "fetch_of (Fetch m p n r) = [(m, p, n)]"
| "fetch_of _ = []"

fun returned_of :: "('m, 'w, 'd) event \<Rightarrow> (string \<times> 'd) list" where
  "returned_of (Fetch m p n (Inr d)) = [(p, d)]"
| "returned_of _ = []"

fun write_of :: "('m, 'w, 'd) event \<Rightarrow> ('w \<times> string \<times> 'd) list" where
  "write_of (Write w p d r) = [(w, p, d)]"
| "write_of _ = []"

fun missing_of :: "('m, 'w, 'd) event \<Rightarrow> string list" where
  "missing_of (MissingName p) = [p]"
| "missing_of _ = []"

definition headers :: "('m, 'w, 'd) event list \<Rightarrow> 'm list" where
  "headers tr = concat (map header_of tr)"

definition processing :: "('m, 'w, 'd) event list \<Rightarrow> ('m \<times> string) list" where
  "processing tr = concat (map processing_of tr)"

definition fetches :: "('m, 'w, 'd) event list \<Rightarrow> ('m \<times> string \<times> string) list" where
  "fetches tr = concat (map fetch_of tr)"

definition returned :: "('m, 'w, 'd) event list \<Rightarrow> (string \<times> 'd) list" where
  "returned tr = concat (map returned_of tr)"

definition writes :: "('m, 'w, 'd) event list \<Rightarrow> ('w \<times> string \<times> 'd) list" where
  "writes tr = concat (map write_of tr)"

definition missing :: "('m, 'w, 'd) event list \<Rightarrow> string list" where
  "missing tr = concat (map missing_of tr)"

text \<open>
  The exception that a call of an event raised and no handler caught: anything but an
  instance of \<open>Exception\<close>. \<open>uncaught tr\<close> lists them for a list of events.
\<close>

fun uncaught_of :: "('m, 'w, 'd) event \<Rightarrow> exn list" where
  "uncaught_of (Fetch m p n (Inl e)) = (if is_Exception e then [] else [e])"
| "uncaught_of (Write w p d (Inl e)) = (if is_Exception e then [] else [e])"
| "uncaught_of _ = []"

definition uncaught :: "('m, 'w, 'd) event list \<Rightarrow> exn list" where
  "uncaught tr = concat (map uncaught_of tr)"

text \<open>
  The report that is due after an event: a failed fetch or write whose exception is an
  instance of \<open>Exception\<close> is to be reported on the next line. \<open>is_report\<close> recognises
  the report lines, and \<open>with_reports\<close> puts after every event of a list the report that
  is due.
\<close>

fun report_due :: "('m, 'w, 'd) event \<Rightarrow> ('m, 'w, 'd) event list" where
  "report_due (Fetch m p n (Inl e)) = (if is_Exception e then [FetchFailed m p e] else [])"
| "report_due (Write w p d (Inl e)) = (if is_Exception e then [WriteFailed w p e] else [])"
| "report_due _ = []"

fun is_report :: "('m, 'w, 'd) event \<Rightarrow> bool" where
  "is_report (FetchFailed m p e) = True"
| "is_report (WriteFailed w p e) = True"
| "is_report _ = False"

definition with_reports :: "('m, 'w, 'd) event list \<Rightarrow> ('m, 'w, 'd) event list" where
  "with_reports tr = concat (map (\<lambda>ev. ev # report_due ev) tr)"

fun is_missing :: "('m, 'w, 'd) event \<Rightarrow> bool" where
  "is_missing MissingHeader = True"
| "is_missing (MissingName p) = True"
| "is_missing _ = False"

text \<open>
  The flow manager's cache is consistent with an environment when it is empty or holds
  the mapping computed from the miner list.
\<close>

definition cache_ok :: "('m, 'w, 'd, 's) env \<Rightarrow> ('m, 'w) flow_manager \<Rightarrow> bool" where
  "cache_ok E self =
     (case fm_cache self of
        None \<Rightarrow> True
      | Some m \<Rightarrow> m = compute_name_source_map E (fm_miners self))"

text \<open>
  The public names of a miner that a run selects for a set of requested names, and the
  same in sorted order.
\<close>

definition selection :: "'m name_source_map \<Rightarrow> string set \<Rightarrow> 'm \<Rightarrow> string set" where
  "selection nsm filter_set m =
     (if filter_set \<noteq> {} then public_names nsm m \<inter> filter_set else public_names nsm m)"

definition selected :: "'m name_source_map \<Rightarrow> string set \<Rightarrow> 'm \<Rightarrow> string list" where
  "selected nsm filter_set m = sorted_list_of_set (selection nsm filter_set m)"

text \<open>
  The fetches that a run plans for a list of miners: for each miner in turn and each of
  its selected names in sorted order, the miner, the public name and the native name.
\<close>

definition planned_fetches ::
  "'m name_source_map \<Rightarrow> string set \<Rightarrow> 'm list \<Rightarrow> ('m \<times> string \<times> string) list" where
  "planned_fetches nsm filter_set ms =
     concat (map (\<lambda>m. concat (map (\<lambda>p. case lookup nsm m p of
                                            None \<Rightarrow> []
                                          | Some n \<Rightarrow> [(m, p, n)])
                                 (selected nsm filter_set m))) ms)"

text \<open>
  A list of events ends with an uncaught exception \<open>e\<close> when its last event is a call that
  raised \<open>e\<close> uncaught and no earlier call did. It agrees with the outcome of a loop when
  it ends with the exception that left the loop, or shows no uncaught exception when the
  loop ran to its end.
\<close>

definition ends_with :: "exn \<Rightarrow> ('m, 'w, 'd) event list \<Rightarrow> bool" where
  "ends_with e tr = (tr \<noteq> [] \<and> uncaught_of (last tr) = [e] \<and> uncaught (butlast tr) = [])"

definition outcome_ok :: "exn option \<Rightarrow> ('m, 'w, 'd) event list \<Rightarrow> bool" where
  "outcome_ok r tr = (case r of None \<Rightarrow> uncaught tr = [] | Some e \<Rightarrow> ends_with e tr)"

text \<open>
  In a list of events every fetch comes after the line that announced its name (and
  recorded it as processed), given the names \<open>seen\<close> so far.
\<close>

fun recorded :: "('m \<times> string) set \<Rightarrow> ('m, 'w, 'd) event list \<Rightarrow> bool" where
  "recorded seen [] = True"
| "recorded seen (Processing m p # tr) = recorded (insert (m, p) seen) tr"
| "recorded seen (Fetch m p n r # tr) = ((m, p) \<in> seen \<and> recorded seen tr)"
| "recorded seen (ev # tr) = recorded seen tr"

subsection \<open>Example collaborators\<close>

text \<open>
  Miners and writers are numbered; data are strings; the state of the world counts the
  calls made. In \<open>scenario_env\<close>, miner 0 of type \<open>MinerA\<close> yields \<open>items\<close> and
  \<open>blueprints\<close>, miner 1 of type \<open>MinerB\<close> yields \<open>items\<close> and \<open>types\<close>; fetching
  \<open>types\<close> raises an \<open>IOError\<close>, and writer 0 raises an \<open>OSError\<close> on \<open>blueprints\<close>.
\<close>

definition scenario_env :: "(nat, nat, string, nat) env" where
  "scenario_env = \<lparr>
     type_name = (\<lambda>m. if m = 0 then ''MinerA'' else ''MinerB''),
     contname_iter = (\<lambda>m. if m = 0 then [''items'', ''blueprints''] else [''items'', ''types'']),
     get_data = (\<lambda>m n s. (if n = ''types'' then Inl (ExceptionSub ''IOError'' ''boom'')
                            else Inr (n @ ''-data''), Suc s)),
     writer_write = (\<lambda>w p d s. (if w = 0 \<and> p = ''blueprints''
                                  then Inl (ExceptionSub ''OSError'' ''full'') else Inr (), Suc s)) \<rparr>"

text \<open>The same collaborators, but fetching \<open>items\<close> raises \<open>SystemExit\<close>.\<close>

definition exiting_env :: "(nat, nat, string, nat) env" where
  "exiting_env = scenario_env \<lparr>
     get_data := (\<lambda>m n s. (if n = ''items'' then Inl (BaseExceptionSub ''SystemExit'' ''1'')
                            else Inr (n @ ''-data''), Suc s)) \<rparr>"

text \<open>The same collaborators, but writer 1 is interrupted by the user on \<open>items_MinerA\<close>.\<close>

definition interrupted_env :: "(nat, nat, string, nat) env" where
  "interrupted_env = scenario_env \<lparr>
     writer_write := (\<lambda>w p d s. (if w = 1 \<and> p = ''items_MinerA''
                                  then Inl KeyboardInterrupt else Inr (), Suc s)) \<rparr>"

text \<open>
  Miners whose native names clash with renamed names: miner 0 of type \<open>A\<close> yields \<open>x\<close>,
  \<open>x_A\<close> and twice \<open>z\<close>; miner 1 of type \<open>B\<close> yields \<open>x\<close> and \<open>x_A\<close>.
\<close>

definition clash_env :: "(nat, nat, string, nat) env" where
  "clash_env = \<lparr>
     type_name = (\<lambda>m. if m = 0 then ''A'' else ''B''),
     contname_iter = (\<lambda>m. if m = 0 then [''x'', ''x_A'', ''z'', ''z''] else [''x'', ''x_A'']),
     get_data = (\<lambda>m n s. (Inr n, Suc s)),
     writer_write = (\<lambda>w p d s. (Inr (), Suc s)) \<rparr>"

text \<open>Miner 0 of type \<open>A\<close> yields \<open>x\<close>; miner 1 of type \<open>B\<close> yields \<open>x\<close> and \<open>x_A\<close>.\<close>

definition overlap_env :: "(nat, nat, string, nat) env" where
  "overlap_env = \<lparr>
     type_name = (\<lambda>m. if m = 0 then ''A'' else ''B''),
     contname_iter = (\<lambda>m. if m = 0 then [''x''] else [''x'', ''x_A'']),
     get_data = (\<lambda>m n s. (Inr n, Suc s)),
     writer_write = (\<lambda>w p d s. (Inr (), Suc s)) \<rparr>"

text \<open>Two miners of the same type \<open>T\<close>, each yielding \<open>x\<close>.\<close>

definition same_type_env :: "(nat, nat, string, nat) env" where
  "same_type_env = \<lparr>
     type_name = (\<lambda>m. ''T''),
     contname_iter = (\<lambda>m. [''x'']),
     get_data = (\<lambda>m n s. (Inr n, Suc s)),
     writer_write = (\<lambda>w p d s. (Inr (), Suc s)) \<rparr>"

text \<open>
  Miner 0 of type \<open>B\<close> yields \<open>x_y\<close> twice; miner 1 of type \<open>y_B\<close> yields \<open>x\<close> twice.
\<close>

definition underscore_env :: "(nat, nat, string, nat) env" where
  "underscore_env = \<lparr>
     type_name = (\<lambda>m. if m = 0 then ''B'' else ''y_B''),
     contname_iter = (\<lambda>m. if m = 0 then [''x_y'', ''x_y''] else [''x'', ''x'']),
     get_data = (\<lambda>m n s. (Inr n, Suc s)),
     writer_write = (\<lambda>w p d s. (Inr (), Suc s)) \<rparr>"

text \<open>A single miner of type \<open>M\<close> that yields \<open>a_M\<close> twice and \<open>a\<close> twice.\<close>

definition twice_env :: "(nat, nat, string, nat) env" where
  "twice_env = \<lparr>
     type_name = (\<lambda>m. ''M''),
     contname_iter = (\<lambda>m. [''a_M'', ''a_M'', ''a'', ''a'']),
     get_data = (\<lambda>m n s. (Inr n, Suc s)),
     writer_write = (\<lambda>w p d s. (Inr (), Suc s)) \<rparr>"

subsection \<open>Auxiliary notions for the proofs about the parser\<close>

text \<open>
  The matches of \<^verbatim>\<open>finditer\<close> in a suffix of the filter string that starts at position
  \<open>k\<close>, and the part of \<open>parse_filter\<close> that follows its loop.
\<close>

definition matches_from :: "nat \<Rightarrow> string \<Rightarrow> (nat \<times> char) list" where
  "matches_from k cs = filter (\<lambda>(i, c). special c) (zip [k..<k + length cs] cs)"

definition finish :: "string \<Rightarrow> exn + (bool \<times> nat \<times> string set) \<Rightarrow> exn + string set" where
  "finish s r = (case r of Inl e \<Rightarrow> Inl e
      | Inr (inarg, pos_current, name_set) \<Rightarrow>
          if inarg then Inl (FilterParseError ''parenthesis is not closed'')
          else Inr (NameSet_add name_set (drop pos_current s)))"

section \<open>Properties\<close>

subsection \<open>Trimming\<close>





lemma strip_blank: "strip name = [] \<longleftrightarrow> list_all isspace name"
proof
  assume "strip name = []"
  then have "dropWhile isspace (rev (dropWhile isspace name)) = []" by (simp add: strip_def)
  then have a: "\<forall>c\<in>set (dropWhile isspace name). isspace c"
    by (simp add: dropWhile_eq_Nil_conv)
  have "dropWhile isspace name = []"
  proof (rule ccontr)
    assume n: "dropWhile isspace name \<noteq> []"
    then have "\<not> isspace (hd (dropWhile isspace name))" by (rule hd_dropWhile)
    moreover have "hd (dropWhile isspace name) \<in> set (dropWhile isspace name)" using n by simp
    ultimately show False using a by blast
  qed
  then show "list_all isspace name" by (metis dropWhile_eq_Nil_conv list_all_iff)
next
  assume "list_all isspace name"
  then have "dropWhile isspace name = []" by (metis dropWhile_eq_Nil_conv list_all_iff)
  then show "strip name = []" unfolding strip_def by (simp only: rev.simps dropWhile.simps)
qed





subsection \<open>Decimal numerals\<close>

lemma digit_chars:
  "map (\<lambda>k. char_of (48 + k)) [0, 1, 2, 3, 4, 5, 6, 7, 8, 9 :: nat] = ''0123456789''"
  by code_simp

lemma digit_char: "k < 10 \<Longrightarrow> char_of (48 + k :: nat) \<in> set ''0123456789''"
proof -
  assume "k < 10"
  then have "k \<in> set [0, 1, 2, 3, 4, 5, 6, 7, 8, 9]" by auto
  then have "char_of (48 + k) \<in> (\<lambda>k. char_of (48 + k)) ` set [0, 1, 2, 3, 4, 5, 6, 7, 8, 9 :: nat]"
    by (rule imageI)
  then have "char_of (48 + k) \<in> set (map (\<lambda>k. char_of (48 + k)) [0, 1, 2, 3, 4, 5, 6, 7, 8, 9 :: nat])"
    by (simp only: set_map)
  then show ?thesis by (simp only: digit_chars)
qed

lemma set_snoc_subset: "set xs \<subseteq> D \<Longrightarrow> c \<in> D \<Longrightarrow> set (xs @ [c]) \<subseteq> D"
  by simp

lemma string_of_nat_digits: "set (string_of_nat n) \<subseteq> set ''0123456789''"
proof (induction n rule: string_of_nat.induct)
  case (1 n)
  show ?case
  proof (cases "n < 10")
    case True
    have e: "string_of_nat n = [] @ [char_of (48 + n)]"
      using True by (subst string_of_nat.simps) simp
    have "set ([] @ [char_of (48 + n)]) \<subseteq> set ''0123456789''"
      by (rule set_snoc_subset) (simp, rule digit_char[OF True])
    then show ?thesis by (simp only: e)
  next
    case False
    have e: "string_of_nat n = string_of_nat (n div 10) @ [char_of (48 + n mod 10)]"
      using False by (subst string_of_nat.simps) simp
    have "n mod 10 < 10" by simp
    then have "char_of (48 + n mod 10) \<in> set ''0123456789''" by (rule digit_char)
    with 1[OF False]
    have "set (string_of_nat (n div 10) @ [char_of (48 + n mod 10)]) \<subseteq> set ''0123456789''"
      by (rule set_snoc_subset)
    then show ?thesis by (simp only: e)
  qed
qed

lemma string_of_nat_nonempty: "string_of_nat n \<noteq> []"
  by (subst string_of_nat.simps) simp

lemma decimal_value_snoc: "decimal_value (ds @ [c]) = 10 * decimal_value ds + (of_char c - 48)"
  by (simp add: decimal_value_def)

lemma decimal_value_string_of_nat: "decimal_value (string_of_nat n) = n"
proof (induction n rule: string_of_nat.induct)
  case (1 n)
  show ?case
  proof (cases "n < 10")
    case True
    then show ?thesis by (subst string_of_nat.simps) (simp add: decimal_value_def)
  next
    case False
    have "n mod 10 < 10" by simp
    then show ?thesis using 1 False
      by (subst string_of_nat.simps) (simp add: decimal_value_snoc)
  qed
qed

lemma string_of_nat_hd: "hd (string_of_nat n) = CHR ''0'' \<Longrightarrow> n = 0"
proof (induction n rule: string_of_nat.induct)
  case (1 n)
  show ?case
  proof (cases "n < 10")
    case True
    have "string_of_nat n = [char_of (48 + n)]" using True by (subst string_of_nat.simps) simp
    then have "char_of (48 + n) = CHR ''0''" using 1(2) by simp
    then have "of_char (char_of (48 + n)) = (of_char (CHR ''0'') :: nat)" by simp
    then show ?thesis using True by simp
  next
    case False
    have "string_of_nat n = string_of_nat (n div 10) @ [char_of (48 + n mod 10)]"
      using False by (subst string_of_nat.simps) simp
    then have "hd (string_of_nat (n div 10)) = CHR ''0''"
      using 1(2) string_of_nat_nonempty[of "n div 10"] by simp
    then have "n div 10 = 0" using 1(1) False by simp
    then show ?thesis using False by simp
  qed
qed

subsection \<open>The scan of the filter string\<close>

lemma matches_from_Cons:
  "matches_from k (c # cs) = (if special c then [(k, c)] else []) @ matches_from (Suc k) cs"
proof -
  have "[k..<k + length (c # cs)] = k # [Suc k..<Suc k + length cs]"
    using upt_conv_Cons[of k "Suc k + length cs"] by simp
  then show ?thesis by (simp add: matches_from_def del: upt_Suc)
qed

lemma NameSet_add_names_of: "NameSet_add ns x \<union> names_of xs = ns \<union> names_of (x # xs)"
  by (auto simp: NameSet_add_def names_of_def Let_def)

lemma names_of_single: "ns \<union> names_of [x] = NameSet_add ns x"
  by (auto simp: NameSet_add_def names_of_def Let_def)

lemma parse_loop_spec:
  assumes "pre @ cs = s"
    and "count_list pre (CHR ''('') = count_list pre (CHR '')'') + (if inarg then 1 else 0)"
    and "cur \<le> length pre"
  shows "finish s (parse_loop s (matches_from (length pre) cs) inarg cur ns) =
     (case find (offending s) [length pre..<length s] of
        Some i \<Rightarrow> Inl (FilterParseError (unexpected_msg (s ! i) i))
      | None \<Rightarrow> if inside s then Inl (FilterParseError ''parenthesis is not closed'')
                else Inr (ns \<union> names_of (pieces s cur (filter (separator s) [length pre..<length s]))))"
  using assms
proof (induction cs arbitrary: pre inarg cur ns)
  case Nil
  then show ?case
    by (auto simp: finish_def matches_from_def inside_def names_of_single)
next
  case (Cons c cs)
  let ?k = "length pre"
  have s: "(pre @ [c]) @ cs = s" using Cons.prems by simp
  have s': "s = pre @ c # cs" using Cons.prems by simp
  have upt: "[?k..<length s] = ?k # [Suc ?k..<length s]"
    using s' upt_conv_Cons[of "length pre" "length s"] by simp
  have nth: "s ! ?k = c" using s' by simp
  have tk: "take ?k s = pre" using s' by simp
  have ins: "inside pre = inarg" using Cons.prems by (simp add: inside_def)
  have offk: "offending s ?k = (c = CHR ''('' \<and> inarg \<or> c = CHR '')'' \<and> \<not> inarg)"
    by (simp add: offending_def nth tk ins)
  have sepk: "separator s ?k = (c = CHR '','' \<and> \<not> inarg)"
    by (simp add: separator_def nth tk ins)
  have find_k: "find (offending s) [?k..<length s] =
      (if offending s ?k then Some ?k else find (offending s) [Suc ?k..<length s])"
    by (simp add: upt)
  have filt_k: "filter (separator s) [?k..<length s] =
      (if separator s ?k then [?k] else []) @ filter (separator s) [Suc ?k..<length s]"
    by (simp add: upt)
  have len: "length (pre @ [c]) = Suc ?k" by simp
  note IH = Cons.IH[OF s, unfolded len]
  show ?case
  proof (cases "special c")
    case False
    then have c: "c \<noteq> CHR ''(''" "c \<noteq> CHR '')''" "c \<noteq> CHR '',''" by (auto simp: special_def)
    show ?thesis
      using IH[of inarg cur ns] Cons.prems(2,3) c False
      by (simp add: matches_from_Cons find_k filt_k offk sepk cong: option.case_cong)
  next
    case True
    then consider (comma) "c = CHR '',''" | (op) "c = CHR ''(''" | (cl) "c = CHR '')''"
      by (auto simp: special_def)
    then show ?thesis
    proof cases
      case comma
      show ?thesis
      proof (cases inarg)
        case True
        then show ?thesis
          using IH[of True cur ns] Cons.prems(2,3) comma
          by (simp add: matches_from_Cons find_k filt_k offk sepk special_def cong: option.case_cong)
      next
        case False
        have "NameSet_add ns (slice s cur ?k) \<union> names_of (pieces s (Suc ?k) (filter (separator s) [Suc ?k..<length s]))
            = ns \<union> names_of (pieces s cur (?k # filter (separator s) [Suc ?k..<length s]))"
          by (simp add: NameSet_add_names_of)
        then show ?thesis
          using IH[of False "Suc ?k" "NameSet_add ns (slice s cur ?k)"] Cons.prems(2,3) comma False
          by (simp add: matches_from_Cons find_k filt_k offk sepk special_def cong: option.case_cong)
      qed
    next
      case op
      show ?thesis
      proof (cases inarg)
        case True
        then show ?thesis using op
          by (simp add: matches_from_Cons find_k offk nth special_def finish_def)
      next
        case False
        then show ?thesis
          using IH[of True cur ns] Cons.prems(2,3) op
          by (simp add: matches_from_Cons find_k filt_k offk sepk special_def cong: option.case_cong)
      qed
    next
      case cl
      show ?thesis
      proof (cases inarg)
        case False
        then show ?thesis using cl
          by (simp add: matches_from_Cons find_k offk nth special_def finish_def)
      next
        case True
        then show ?thesis
          using IH[of False cur ns] Cons.prems(2,3) cl
          by (simp add: matches_from_Cons find_k filt_k offk sepk special_def cong: option.case_cong)
      qed
    qed
  qed
qed

lemma parse_filter_spec:
  "parse_filter s =
     (case first_offending s of
        Some i \<Rightarrow> Inl (FilterParseError (unexpected_msg (s ! i) i))
      | None \<Rightarrow> if inside s then Inl (FilterParseError ''parenthesis is not closed'')
                else Inr (names_of (entries s)))"
  using parse_loop_spec[of "[]" s s False 0 "{}"]
  by (auto simp add: parse_filter_def finish_def matches_from_def finditer_def first_offending_def entries_def split: option.splits)

subsection \<open>Entries\<close>








subsection \<open>The resolver as a list of registrations\<close>

lemma map_of_add_producer:
  "map_of (add_producer d n m) =
     (map_of d)(n \<mapsto> (case map_of d n of None \<Rightarrow> [] | Some ms \<Rightarrow> ms) @ [m])"
  by (simp add: add_producer_def update_conv')

lemma distinct_add_producer:
  "distinct (map fst d) \<Longrightarrow> distinct (map fst (add_producer d n m))"
  by (simp add: add_producer_def distinct_update)

lemma producers_in_Cons:
  "producers_in (q # prods) n = (if fst q = n then [snd q] else []) @ producers_in prods n"
  by (simp add: producers_in_def)

lemma foldl_add_producer:
  "map_of (foldl (\<lambda>d q. add_producer d (fst q) (snd q)) d prods) n =
     (case map_of d n of
        None \<Rightarrow> if producers_in prods n = [] then None else Some (producers_in prods n)
      | Some ms \<Rightarrow> Some (ms @ producers_in prods n))"
proof (induction prods arbitrary: d)
  case Nil
  then show ?case by (simp add: producers_in_def split: option.split)
next
  case (Cons q prods)
  show ?case
    by (simp add: Cons.IH map_of_add_producer producers_in_Cons split: option.split)
qed

lemma foldl_add_producer_distinct:
  "distinct (map fst d) \<Longrightarrow>
   distinct (map fst (foldl (\<lambda>d q. add_producer d (fst q) (snd q)) d prods))"
  by (induction prods arbitrary: d) (simp_all add: distinct_add_producer)

lemma foldl_concat_map:
  "foldl (\<lambda>d m. foldl (\<lambda>d n. f d n m) d (g m)) d ms =
   foldl (\<lambda>d q. f d (fst q) (snd q)) d (concat (map (\<lambda>m. map (\<lambda>n. (n, m)) (g m)) ms))"
proof (induction ms arbitrary: d)
  case Nil
  then show ?case by simp
next
  case (Cons m ms)
  have "foldl (\<lambda>d q. f d (fst q) (snd q)) d (map (\<lambda>n. (n, m)) xs) = foldl (\<lambda>d n. f d n m) d xs"
    for xs d
    by (induction xs arbitrary: d) simp_all
  then show ?case by (simp add: Cons.IH)
qed

lemma build_name_miner_map_productions:
  "build_name_miner_map E miners =
     foldl (\<lambda>d q. add_producer d (fst q) (snd q)) [] (productions E miners)"
  unfolding build_name_miner_map_def productions_def
  by (rule foldl_concat_map)

lemma map_of_build_name_miner_map:
  "map_of (build_name_miner_map E miners) n =
     (if producers E miners n = [] then None else Some (producers E miners n))"
  by (simp add: build_name_miner_map_productions foldl_add_producer producers_def)

lemma distinct_build_name_miner_map:
  "distinct (map fst (build_name_miner_map E miners))"
  by (simp add: build_name_miner_map_productions foldl_add_producer_distinct)

lemma set_build_name_miner_map:
  "(n, ms) \<in> set (build_name_miner_map E miners) \<longleftrightarrow> ms = producers E miners n \<and> ms \<noteq> []"
proof -
  have "(n, ms) \<in> set (build_name_miner_map E miners) \<longleftrightarrow>
        map_of (build_name_miner_map E miners) n = Some ms"
    using map_of_eq_Some_iff[OF distinct_build_name_miner_map] by metis
  then show ?thesis by (auto simp: map_of_build_name_miner_map split: if_splits)
qed

lemma build_name_miner_map_nonempty:
  "(n, ms) \<in> set (build_name_miner_map E miners) \<Longrightarrow> ms \<noteq> []"
  using set_build_name_miner_map by blast

lemma set_producers:
  "m \<in> set (producers E miners n) \<longleftrightarrow> m \<in> set miners \<and> n \<in> set (contname_iter E m)"
  by (force simp: producers_def producers_in_def productions_def)

lemma resolve_item_regs:
  "resolve_item E nsm item = register_all nsm (regs_of E item)"
proof (cases item)
  case (Pair n ms)
  have "foldl (\<lambda>nsm miner. register nsm miner (renamed E n miner) n) nsm xs =
        register_all nsm (map (\<lambda>m. (m, renamed E n m, n)) xs)" for xs nsm
    by (induction xs arbitrary: nsm) (simp_all add: register_all_def)
  then show ?thesis
    by (simp add: Pair resolve_item_def regs_of_def register_all_def split: list.split)
qed

lemma register_all_append:
  "register_all nsm (xs @ ys) = register_all (register_all nsm xs) ys"
  by (simp add: register_all_def)

lemma compute_name_source_map_regs:
  "compute_name_source_map E miners = register_all [] (all_regs E miners)"
proof -
  have "foldl (resolve_item E) nsm items = register_all nsm (concat (map (regs_of E) items))"
    for nsm items
    by (induction items arbitrary: nsm) (simp_all add: resolve_item_regs register_all_append, simp add: register_all_def)
  then show ?thesis by (simp add: compute_name_source_map_def all_regs_def)
qed

lemma set_all_regs:
  "(m, p, n) \<in> set (all_regs E miners) \<longleftrightarrow>
     m \<in> set (producers E miners n)
     \<and> (if length (producers E miners n) > 1 then p = renamed E n m else p = n)"
proof -
  have "(m, p, n) \<in> set (all_regs E miners) \<longleftrightarrow>
        (\<exists>n' ms. ms = producers E miners n' \<and> ms \<noteq> [] \<and> (m, p, n) \<in> set (regs_of E (n', ms)))"
    by (auto simp: all_regs_def set_build_name_miner_map)
  also have "\<dots> \<longleftrightarrow> (producers E miners n \<noteq> [] \<and> (m, p, n) \<in> set (regs_of E (n, producers E miners n)))"
    by (auto simp: regs_of_def split: if_splits list.splits)
  also have "\<dots> \<longleftrightarrow> m \<in> set (producers E miners n)
     \<and> (if length (producers E miners n) > 1 then p = renamed E n m else p = n)"
    by (cases "producers E miners n") (auto simp: regs_of_def split: if_splits list.splits)
  finally show ?thesis .
qed

subsection \<open>Looking names up in the resolved namespace\<close>

lemma map_of_register:
  "map_of (register nsm m p n) m' =
     (if m' = m then Some (AList.update p n (case map_of nsm m of None \<Rightarrow> [] | Some c \<Rightarrow> c))
      else map_of nsm m')"
  by (simp add: register_def update_conv')

lemma lookup_register:
  "lookup (register nsm m p n) m' p' =
     (if m' = m \<and> p' = p then Some n else lookup nsm m' p')"
  by (auto simp: lookup_def map_of_register update_conv' split: option.splits)

lemma lookup_register_all_Some:
  "lookup (register_all nsm regs) m p = Some n \<Longrightarrow>
     (m, p, n) \<in> set regs \<or> lookup nsm m p = Some n"
proof (induction regs arbitrary: nsm)
  case Nil
  then show ?case by (simp add: register_all_def)
next
  case (Cons r regs)
  have "register_all nsm (r # regs) = register_all (register nsm (fst r) (fst (snd r)) (snd (snd r))) regs"
    by (simp add: register_all_def)
  with Cons.prems Cons.IH[of "register nsm (fst r) (fst (snd r)) (snd (snd r))"]
  show ?case by (cases r) (auto simp: lookup_register split: if_splits)
qed

lemma lookup_register_all_defined:
  "(\<exists>n. (m, p, n) \<in> set regs) \<or> lookup nsm m p \<noteq> None \<Longrightarrow>
     lookup (register_all nsm regs) m p \<noteq> None"
proof (induction regs arbitrary: nsm)
  case Nil
  then show ?case by (simp add: register_all_def)
next
  case (Cons r regs)
  have eq: "register_all nsm (r # regs) = register_all (register nsm (fst r) (fst (snd r)) (snd (snd r))) regs"
    by (simp add: register_all_def)
  have "(\<exists>n. (m, p, n) \<in> set regs) \<or> lookup (register nsm (fst r) (fst (snd r)) (snd (snd r))) m p \<noteq> None"
    using Cons.prems by (cases r) (auto simp: lookup_register)
  then show ?case unfolding eq by (rule Cons.IH)
qed

lemma lookup_Nil: "lookup [] m p = None"
  by (simp add: lookup_def)

lemma lookup_compute_Some:
  "lookup (compute_name_source_map E miners) m p = Some n \<Longrightarrow>
     m \<in> set (producers E miners n)
     \<and> (if length (producers E miners n) > 1 then p = renamed E n m else p = n)"
  using lookup_register_all_Some[of "[]" "all_regs E miners" m p n]
  by (simp add: compute_name_source_map_regs lookup_Nil set_all_regs)

lemma lookup_compute_defined:
  "m \<in> set (producers E miners n) \<Longrightarrow>
   (if length (producers E miners n) > 1 then p = renamed E n m else p = n) \<Longrightarrow>
   \<exists>n'. lookup (compute_name_source_map E miners) m p = Some n'"
  using lookup_register_all_defined[of m p "all_regs E miners" "[]"] set_all_regs[of m p n E miners]
  by (auto simp: compute_name_source_map_regs)

lemma renamed_inject: "renamed E n m = renamed E n' m \<longleftrightarrow> n = n'"
  by (simp add: renamed_def)

lemma renamed_neq: "renamed E n m \<noteq> n"
  by (simp add: renamed_def)

lemma fresh_namesD:
  assumes "fresh_names E miners" and "m \<in> set (producers E miners n)"
    and "length (producers E miners n) > 1"
  shows "producers E miners (renamed E n m) = []"
proof (rule ccontr)
  assume "producers E miners (renamed E n m) \<noteq> []"
  then obtain m' where "m' \<in> set (producers E miners (renamed E n m))"
    by (cases "producers E miners (renamed E n m)") auto
  then have m': "m' \<in> set miners" "renamed E n m \<in> set (contname_iter E m')"
    by (simp_all add: set_producers)
  have m: "m \<in> set miners" "n \<in> set (contname_iter E m)"
    using assms(2) by (simp_all add: set_producers)
  from assms(1) have "\<forall>m\<in>set miners. \<forall>n\<in>set (contname_iter E m).
      length (producers E miners n) \<le> 1
      \<or> (\<forall>m'\<in>set miners. renamed E n m \<notin> set (contname_iter E m'))"
    by (simp add: fresh_names_def list_all_iff)
  with m assms(3) have "\<forall>m'\<in>set miners. renamed E n m \<notin> set (contname_iter E m')"
    by (metis not_less)
  with m' show False by blast
qed

subsection \<open>Keys of the resolved namespace\<close>

lemma set_update_subset: "set (AList.update k v al) \<subseteq> insert (k, v) (set al)"
  by (induction al) auto

lemma register_distinct:
  "distinct (map fst nsm) \<Longrightarrow> distinct (map fst (register nsm m p n))"
  by (simp add: register_def distinct_update)

lemma register_buckets_distinct:
  assumes "\<forall>(m, b) \<in> set nsm. distinct (map fst b)"
  shows "\<forall>(m, b) \<in> set (register nsm m0 p n). distinct (map fst b)"
proof -
  let ?old = "case map_of nsm m0 of None \<Rightarrow> [] | Some c \<Rightarrow> c"
  have old: "distinct (map fst ?old)"
    using assms by (auto split: option.split dest!: map_of_SomeD)
  have "set (register nsm m0 p n) \<subseteq> insert (m0, AList.update p n ?old) (set nsm)"
    unfolding register_def Let_def by (rule set_update_subset)
  moreover have "distinct (map fst (AList.update p n ?old))"
    using old by (rule distinct_update)
  ultimately show ?thesis using assms by auto
qed

lemma register_all_distinct:
  "distinct (map fst nsm) \<Longrightarrow> distinct (map fst (register_all nsm regs))"
  by (induction regs arbitrary: nsm) (simp_all add: register_all_def register_distinct)

lemma register_all_buckets_distinct:
  "\<forall>(m, b) \<in> set nsm. distinct (map fst b) \<Longrightarrow>
   \<forall>(m, b) \<in> set (register_all nsm regs). distinct (map fst b)"
proof (induction regs arbitrary: nsm)
  case Nil
  then show ?case by (simp add: register_all_def)
next
  case (Cons r regs)
  have "register_all nsm (r # regs) = register_all (register nsm (fst r) (fst (snd r)) (snd (snd r))) regs"
    by (simp add: register_all_def)
  then show ?case using Cons.IH[OF register_buckets_distinct[OF Cons.prems]] by simp
qed

lemma compute_distinct: "distinct (map fst (compute_name_source_map E miners))"
  by (simp add: compute_name_source_map_regs register_all_distinct)

lemma compute_buckets_distinct:
  "(m, b) \<in> set (compute_name_source_map E miners) \<Longrightarrow> distinct (map fst b)"
  using register_all_buckets_distinct[of "[]" "all_regs E miners"]
  by (auto simp: compute_name_source_map_regs)

lemma public_names_lookup: "p \<in> public_names nsm m \<longleftrightarrow> lookup nsm m p \<noteq> None"
proof (cases "map_of nsm m")
  case None
  show ?thesis unfolding public_names_def lookup_def None by simp
next
  case (Some b)
  have "p \<in> fst ` set b \<longleftrightarrow> map_of b p \<noteq> None"
    by (simp add: map_of_eq_None_iff)
  then show ?thesis unfolding public_names_def lookup_def Some by simp
qed

lemma takeWhile_until: "c \<notin> set zs \<Longrightarrow> takeWhile (\<lambda>x. x \<noteq> c) (zs @ c # ws) = zs"
  by (induction zs) auto

lemma split_at_last:
  assumes "xs @ c # ys = xs' @ c # ys'" and "c \<notin> set ys" and "c \<notin> set ys'"
  shows "ys = ys'"
proof -
  have "rev ys @ c # rev xs = rev ys' @ c # rev xs'"
    using arg_cong[OF assms(1), of rev] by simp
  then have "takeWhile (\<lambda>x. x \<noteq> c) (rev ys @ c # rev xs) =
             takeWhile (\<lambda>x. x \<noteq> c) (rev ys' @ c # rev xs')"
    by simp
  moreover have "takeWhile (\<lambda>x. x \<noteq> c) (rev ys @ c # rev xs) = rev ys"
    using assms(2) by (intro takeWhile_until) simp
  moreover have "takeWhile (\<lambda>x. x \<noteq> c) (rev ys' @ c # rev xs') = rev ys'"
    using assms(3) by (intro takeWhile_until) simp
  ultimately have "rev ys = rev ys'" by simp
  then show ?thesis by simp
qed

lemma renamed_type_name:
  assumes "renamed E n m = renamed E n' m'"
    and "CHR ''_'' \<notin> set (type_name E m)" and "CHR ''_'' \<notin> set (type_name E m')"
  shows "type_name E m = type_name E m'"
  using assms split_at_last[of n "CHR ''_''" "type_name E m" n' "type_name E m'"]
  by (simp add: renamed_def)

lemma length_le_one_eq: "length xs \<le> 1 \<Longrightarrow> a \<in> set xs \<Longrightarrow> b \<in> set xs \<Longrightarrow> a = b"
  by (cases xs) auto

subsection \<open>Counting producers\<close>

lemma producers_in_append:
  "producers_in (xs @ ys) n = producers_in xs n @ producers_in ys n"
  by (simp add: producers_in_def)

lemma count_producers_in_map:
  "count_list (producers_in (map (\<lambda>n. (n, m0)) xs) n) m =
     (if m0 = m then count_list xs n else 0)"
  by (induction xs) (auto simp: producers_in_def)

lemma count_producers:
  "count_list (producers E miners n) m = count_list miners m * count_list (contname_iter E m) n"
proof (induction miners)
  case Nil
  then show ?case by (simp add: producers_def productions_def producers_in_def)
next
  case (Cons m0 miners)
  have "producers E (m0 # miners) n =
        producers_in (map (\<lambda>n. (n, m0)) (contname_iter E m0)) n @ producers E miners n"
    by (simp add: producers_def productions_def producers_in_append)
  then show ?case using Cons.IH by (simp add: count_producers_in_map)
qed

subsection \<open>The loop over the writers\<close>

lemmas projections = headers_def processing_def fetches_def returned_def writes_def
  missing_def uncaught_def

lemma uncaught_append [simp]: "uncaught (a @ b) = uncaught a @ uncaught b"
  by (simp add: uncaught_def)

lemma uncaught_Cons: "uncaught (x # a) = uncaught_of x @ uncaught a"
  by (simp add: uncaught_def)

lemma uncaught_Nil [simp]: "uncaught [] = []"
  by (simp add: uncaught_def)

lemma ends_with_Cons:
  "uncaught_of x = [] \<Longrightarrow> ends_with e tr \<Longrightarrow> ends_with e (x # tr)"
  by (auto simp: ends_with_def uncaught_Cons)

lemma ends_with_append:
  "uncaught a = [] \<Longrightarrow> ends_with e tr \<Longrightarrow> ends_with e (a @ tr)"
  by (auto simp: ends_with_def butlast_append)

lemma ends_with_single: "uncaught_of x = [e] \<Longrightarrow> ends_with e [x]"
  by (simp add: ends_with_def)

lemma outcome_ok_Cons:
  "uncaught_of x = [] \<Longrightarrow> outcome_ok r tr \<Longrightarrow> outcome_ok r (x # tr)"
  by (cases r) (simp_all add: outcome_ok_def uncaught_Cons ends_with_Cons)

lemma outcome_ok_append:
  "uncaught a = [] \<Longrightarrow> outcome_ok r tr \<Longrightarrow> outcome_ok r (a @ tr)"
  by (cases r) (simp_all add: outcome_ok_def ends_with_append)

lemma is_Exception_not_interrupt: "is_Exception e \<Longrightarrow> \<not> is_KeyboardInterrupt e"
  by (cases e) simp_all

lemma write_loop_step:
  assumes "write_loop E (w # ws) p d s = (r, tr, s')"
  obtains
    (ok) u s1 tr2 where "writer_write E w p d s = (Inr u, s1)"
      and "write_loop E ws p d s1 = (r, tr2, s')" and "tr = Write w p d (Inr u) # tr2"
  | (caught) e s1 tr2 where "writer_write E w p d s = (Inl e, s1)" and "is_Exception e"
      and "write_loop E ws p d s1 = (r, tr2, s')"
      and "tr = Write w p d (Inl e) # WriteFailed w p e # tr2"
  | (raised) e s1 where "writer_write E w p d s = (Inl e, s1)" and "\<not> is_Exception e"
      and "r = Some e" and "tr = [Write w p d (Inl e)]" and "s' = s1"
proof -
  obtain out s1 where w: "writer_write E w p d s = (out, s1)" by (cases "writer_write E w p d s")
  obtain r2 tr2 s2 where rec: "write_loop E ws p d s1 = (r2, tr2, s2)"
    by (cases "write_loop E ws p d s1") auto
  show thesis
  proof (cases out)
    case (Inr u)
    then show ?thesis using assms w rec ok by auto
  next
    case (Inl e)
    show ?thesis
    proof (cases "is_Exception e")
      case True
      then show ?thesis using assms w rec Inl caught is_Exception_not_interrupt[of e] by auto
    next
      case False
      then show ?thesis using assms w rec Inl raised by (auto split: if_splits)
    qed
  qed
qed

lemma write_loop_outcome:
  "write_loop E ws p d s = (r, tr, s') \<Longrightarrow> outcome_ok r tr"
proof (induction ws arbitrary: s r tr s')
  case Nil
  then show ?case by (simp add: outcome_ok_def)
next
  case (Cons w ws)
  from Cons.prems show ?case
  proof (cases rule: write_loop_step)
    case (ok u s1 tr2)
    then show ?thesis using Cons.IH[of s1 r tr2 s'] by (simp add: outcome_ok_Cons)
  next
    case (caught e s1 tr2)
    then show ?thesis using Cons.IH[of s1 r tr2 s'] by (simp add: outcome_ok_Cons)
  next
    case (raised e s1)
    then show ?thesis by (simp add: outcome_ok_def ends_with_single)
  qed
qed

lemma write_loop_writes:
  "write_loop E ws p d s = (None, tr, s') \<Longrightarrow> writes tr = map (\<lambda>w. (w, p, d)) ws"
proof (induction ws arbitrary: s tr s')
  case Nil
  then show ?case by (simp add: writes_def)
next
  case (Cons w ws)
  from Cons.prems show ?case
  proof (cases rule: write_loop_step)
    case (ok u s1 tr2)
    then show ?thesis using Cons.IH[of s1 tr2 s'] by (simp add: writes_def)
  next
    case (caught e s1 tr2)
    then show ?thesis using Cons.IH[of s1 tr2 s'] by (simp add: writes_def)
  next
    case (raised e s1)
    then show ?thesis by simp
  qed
qed

lemma write_loop_others:
  "write_loop E ws p d s = (r, tr, s') \<Longrightarrow>
     headers tr = [] \<and> processing tr = [] \<and> fetches tr = [] \<and> returned tr = []
     \<and> missing tr = [] \<and> filter is_missing tr = []
     \<and> with_reports (filter (\<lambda>ev. \<not> is_report ev) tr) = tr"
proof (induction ws arbitrary: s r tr s')
  case Nil
  then show ?case by (simp add: projections with_reports_def)
next
  case (Cons w ws)
  from Cons.prems show ?case
  proof (cases rule: write_loop_step)
    case (ok u s1 tr2)
    then show ?thesis using Cons.IH[of s1 r tr2 s'] by (simp add: projections with_reports_def)
  next
    case (caught e s1 tr2)
    then show ?thesis using Cons.IH[of s1 r tr2 s'] by (simp add: projections with_reports_def)
  next
    case (raised e s1)
    then show ?thesis by (simp add: projections with_reports_def)
  qed
qed

subsection \<open>The loop over the names of a miner\<close>

lemma headers_Nil: "headers [] = []"
  by (simp add: headers_def)

lemma headers_Cons: "headers (x # tr) = header_of x @ headers tr"
  by (simp add: headers_def)

lemma headers_append: "headers (a @ b) = headers a @ headers b"
  by (simp add: headers_def)

lemma processing_Nil: "processing [] = []"
  by (simp add: processing_def)

lemma processing_Cons: "processing (x # tr) = processing_of x @ processing tr"
  by (simp add: processing_def)

lemma processing_append: "processing (a @ b) = processing a @ processing b"
  by (simp add: processing_def)

lemma fetches_Nil: "fetches [] = []"
  by (simp add: fetches_def)

lemma fetches_Cons: "fetches (x # tr) = fetch_of x @ fetches tr"
  by (simp add: fetches_def)

lemma fetches_append: "fetches (a @ b) = fetches a @ fetches b"
  by (simp add: fetches_def)

lemma returned_Nil: "returned [] = []"
  by (simp add: returned_def)

lemma returned_Cons: "returned (x # tr) = returned_of x @ returned tr"
  by (simp add: returned_def)

lemma returned_append: "returned (a @ b) = returned a @ returned b"
  by (simp add: returned_def)

lemma writes_Nil: "writes [] = []"
  by (simp add: writes_def)

lemma writes_Cons: "writes (x # tr) = write_of x @ writes tr"
  by (simp add: writes_def)

lemma writes_append: "writes (a @ b) = writes a @ writes b"
  by (simp add: writes_def)

lemma missing_Nil: "missing [] = []"
  by (simp add: missing_def)

lemma missing_Cons: "missing (x # tr) = missing_of x @ missing tr"
  by (simp add: missing_def)

lemma missing_append: "missing (a @ b) = missing a @ missing b"
  by (simp add: missing_def)

lemma with_reports_Nil: "with_reports [] = []"
  by (simp add: with_reports_def)

lemma with_reports_Cons: "with_reports (x # tr) = x # report_due x @ with_reports tr"
  by (simp add: with_reports_def)

lemma with_reports_append: "with_reports (a @ b) = with_reports a @ with_reports b"
  by (simp add: with_reports_def)

lemmas proj_simps =
  headers_Nil headers_Cons headers_append processing_Nil
  processing_Cons processing_append fetches_Nil fetches_Cons
  fetches_append returned_Nil returned_Cons returned_append
  writes_Nil writes_Cons writes_append missing_Nil
  missing_Cons missing_append with_reports_Nil with_reports_Cons
  with_reports_append uncaught_Nil uncaught_Cons uncaught_append

lemma names_loop_step:
  assumes "names_loop E ws m b (p # ps) P s = (r, tr, P', s')"
  obtains
    (keyerror) "map_of b p = None"
  | (fetch_raised) n e s1 where "map_of b p = Some n" and "get_data E m n s = (Inl e, s1)"
      and "\<not> is_Exception e" and "r = Some e"
      and "tr = [Processing m p, Fetch m p n (Inl e)]" and "P' = insert p P" and "s' = s1"
  | (fetch_caught) n e s1 tr2 where "map_of b p = Some n" and "get_data E m n s = (Inl e, s1)"
      and "is_Exception e" and "names_loop E ws m b ps (insert p P) s1 = (r, tr2, P', s')"
      and "tr = Processing m p # Fetch m p n (Inl e) # FetchFailed m p e # tr2"
  | (write_raised) n d s1 e trw where "map_of b p = Some n"
      and "get_data E m n s = (Inr d, s1)" and "write_loop E ws p d s1 = (Some e, trw, s')"
      and "r = Some e" and "tr = Processing m p # Fetch m p n (Inr d) # trw"
      and "P' = insert p P"
  | (written) n d s1 trw s2 tr2 where "map_of b p = Some n"
      and "get_data E m n s = (Inr d, s1)" and "write_loop E ws p d s1 = (None, trw, s2)"
      and "names_loop E ws m b ps (insert p P) s2 = (r, tr2, P', s')"
      and "tr = Processing m p # Fetch m p n (Inr d) # trw @ tr2"
proof (cases "map_of b p")
  case None
  then show ?thesis by (rule keyerror)
next
  case (Some n)
  obtain out s1 where g: "get_data E m n s = (out, s1)" by (cases "get_data E m n s")
  show ?thesis
  proof (cases out)
    case (Inl e)
    obtain r2 tr2 P2 s2 where rec: "names_loop E ws m b ps (insert p P) s1 = (r2, tr2, P2, s2)"
      by (cases "names_loop E ws m b ps (insert p P) s1") auto
    show ?thesis
    proof (cases "is_Exception e")
      case True
      then show ?thesis
        using assms Some g Inl rec fetch_caught is_Exception_not_interrupt[of e]
        by (auto simp: Let_def)
    next
      case False
      then show ?thesis using assms Some g Inl fetch_raised
        by (auto simp: Let_def split: if_splits)
    qed
  next
    case (Inr d)
    obtain rw trw sw where wl: "write_loop E ws p d s1 = (rw, trw, sw)"
      by (cases "write_loop E ws p d s1") auto
    show ?thesis
    proof (cases rw)
      case None
      obtain r2 tr2 P2 s2 where rec: "names_loop E ws m b ps (insert p P) sw = (r2, tr2, P2, s2)"
        by (cases "names_loop E ws m b ps (insert p P) sw") auto
      show ?thesis using assms Some g Inr wl None rec written by (auto simp: Let_def)
    next
      case (Some e)
      then show ?thesis using assms \<open>map_of b p = Some n\<close> g Inr wl write_raised
        by (auto simp: Let_def)
    qed
  qed
qed

lemma names_loop_outcome:
  "set ps \<subseteq> fst ` set b \<Longrightarrow> names_loop E ws m b ps P s = (r, tr, P', s') \<Longrightarrow> outcome_ok r tr"
proof (induction ps arbitrary: P s r tr P' s')
  case Nil
  then show ?case by (simp add: outcome_ok_def)
next
  case (Cons p ps)
  have sub: "set ps \<subseteq> fst ` set b" and mem: "p \<in> fst ` set b" using Cons.prems(1) by auto
  from Cons.prems(2) show ?case
  proof (cases rule: names_loop_step)
    case keyerror
    then show ?thesis using mem by (simp add: map_of_eq_None_iff)
  next
    case (fetch_raised n e s1)
    then show ?thesis by (simp add: outcome_ok_def ends_with_def uncaught_def)
  next
    case (fetch_caught n e s1 tr2)
    then show ?thesis using Cons.IH[OF sub fetch_caught(4)] by (simp add: outcome_ok_Cons)
  next
    case (write_raised n d s1 e trw)
    then show ?thesis using write_loop_outcome[OF write_raised(3)] by (simp add: outcome_ok_Cons)
  next
    case (written n d s1 trw s2 tr2)
    have "uncaught trw = []" using write_loop_outcome[OF written(3)] by (simp add: outcome_ok_def)
    then show ?thesis using written Cons.IH[OF sub written(4)]
      by (simp add: outcome_ok_Cons outcome_ok_append)
  qed
qed

lemma names_loop_processed:
  "set ps \<subseteq> fst ` set b \<Longrightarrow> names_loop E ws m b ps P s = (r, tr, P', s') \<Longrightarrow>
     P' = P \<union> snd ` set (processing tr)
     \<and> prefix (processing tr) (map (Pair m) ps)
     \<and> (r = None \<longrightarrow> processing tr = map (Pair m) ps)
     \<and> map (\<lambda>f. (fst f, fst (snd f))) (fetches tr) = processing tr"
proof (induction ps arbitrary: P s r tr P' s')
  case Nil
  then show ?case by (simp add: proj_simps)
next
  case (Cons p ps)
  have sub: "set ps \<subseteq> fst ` set b" and mem: "p \<in> fst ` set b" using Cons.prems(1) by auto
  from Cons.prems(2) show ?case
  proof (cases rule: names_loop_step)
    case keyerror
    then show ?thesis using mem by (simp add: map_of_eq_None_iff)
  next
    case (fetch_raised n e s1)
    then show ?thesis by (simp add: proj_simps)
  next
    case (fetch_caught n e s1 tr2)
    then show ?thesis using Cons.IH[OF sub fetch_caught(4)] by (auto simp: proj_simps)
  next
    case (write_raised n d s1 e trw)
    then show ?thesis using write_loop_others[OF write_raised(3)] by (simp add: proj_simps)
  next
    case (written n d s1 trw s2 tr2)
    then show ?thesis using write_loop_others[OF written(3)] Cons.IH[OF sub written(4)]
      by (auto simp: proj_simps)
  qed
qed

lemma names_loop_calls:
  "set ps \<subseteq> fst ` set b \<Longrightarrow> names_loop E ws m b ps P s = (None, tr, P', s') \<Longrightarrow>
     fetches tr = concat (map (\<lambda>p. case map_of b p of None \<Rightarrow> [] | Some n \<Rightarrow> [(m, p, n)]) ps)
     \<and> writes tr = concat (map (\<lambda>r. map (\<lambda>w. (w, fst r, snd r)) ws) (returned tr))"
proof (induction ps arbitrary: P s tr P' s')
  case Nil
  then show ?case by (simp add: proj_simps)
next
  case (Cons p ps)
  have sub: "set ps \<subseteq> fst ` set b" and mem: "p \<in> fst ` set b" using Cons.prems(1) by auto
  from Cons.prems(2) show ?case
  proof (cases rule: names_loop_step)
    case keyerror
    then show ?thesis using mem by (simp add: map_of_eq_None_iff)
  next
    case (fetch_raised n e s1)
    then show ?thesis by simp
  next
    case (fetch_caught n e s1 tr2)
    then show ?thesis using Cons.IH[OF sub fetch_caught(4)] by (simp add: proj_simps)
  next
    case (write_raised n d s1 e trw)
    then show ?thesis by simp
  next
    case (written n d s1 trw s2 tr2)
    then show ?thesis
      using write_loop_others[OF written(3)] write_loop_writes[OF written(3)]
        Cons.IH[OF sub written(4)]
      by (simp add: proj_simps)
  qed
qed

lemma names_loop_others:
  "set ps \<subseteq> fst ` set b \<Longrightarrow> names_loop E ws m b ps P s = (r, tr, P', s') \<Longrightarrow>
     headers tr = [] \<and> missing tr = [] \<and> filter is_missing tr = []
     \<and> with_reports (filter (\<lambda>ev. \<not> is_report ev) tr) = tr"
proof (induction ps arbitrary: P s r tr P' s')
  case Nil
  then show ?case by (simp add: proj_simps)
next
  case (Cons p ps)
  have sub: "set ps \<subseteq> fst ` set b" and mem: "p \<in> fst ` set b" using Cons.prems(1) by auto
  from Cons.prems(2) show ?case
  proof (cases rule: names_loop_step)
    case keyerror
    then show ?thesis using mem by (simp add: map_of_eq_None_iff)
  next
    case (fetch_raised n e s1)
    then show ?thesis by (simp add: proj_simps)
  next
    case (fetch_caught n e s1 tr2)
    then show ?thesis using Cons.IH[OF sub fetch_caught(4)]
      by (simp add: proj_simps)
  next
    case (write_raised n d s1 e trw)
    then show ?thesis using write_loop_others[OF write_raised(3)]
      by (simp add: proj_simps)
  next
    case (written n d s1 trw s2 tr2)
    then show ?thesis using write_loop_others[OF written(3)] Cons.IH[OF sub written(4)]
      by (simp add: proj_simps)
  qed
qed

lemma recorded_mono:
  "recorded seen tr \<Longrightarrow> seen \<subseteq> seen' \<Longrightarrow> recorded seen' tr"
proof (induction seen tr arbitrary: seen' rule: recorded.induct)
  case (2 seen m p tr)
  then show ?case using "2.IH"[of "insert (m, p) seen'"] by auto
qed auto

lemma recorded_append:
  "recorded seen (a @ b) \<longleftrightarrow> recorded seen a \<and> recorded (seen \<union> set (processing a)) b"
  by (induction seen a rule: recorded.induct) (simp_all add: proj_simps)

lemma recorded_no_fetch: "fetches tr = [] \<Longrightarrow> recorded seen tr"
  by (induction seen tr rule: recorded.induct) (simp_all add: proj_simps)

lemma names_loop_recorded:
  "set ps \<subseteq> fst ` set b \<Longrightarrow> names_loop E ws m b ps P s = (r, tr, P', s') \<Longrightarrow> recorded seen tr"
proof (induction ps arbitrary: P s r tr P' s' seen)
  case Nil
  then show ?case by simp
next
  case (Cons p ps)
  have sub: "set ps \<subseteq> fst ` set b" and mem: "p \<in> fst ` set b" using Cons.prems(1) by auto
  from Cons.prems(2) show ?case
  proof (cases rule: names_loop_step)
    case keyerror
    then show ?thesis using mem by (simp add: map_of_eq_None_iff)
  next
    case (fetch_raised n e s1)
    then show ?thesis by simp
  next
    case (fetch_caught n e s1 tr2)
    then show ?thesis using Cons.IH[OF sub fetch_caught(4)] by simp
  next
    case (write_raised n d s1 e trw)
    have "recorded (insert (m, p) seen) trw"
      using write_loop_others[OF write_raised(3)] by (simp add: recorded_no_fetch)
    then show ?thesis using write_raised by simp
  next
    case (written n d s1 trw s2 tr2)
    have "recorded (insert (m, p) seen) trw"
      using write_loop_others[OF written(3)] by (simp add: recorded_no_fetch)
    then show ?thesis using written Cons.IH[OF sub written(4)]
      by (simp add: recorded_append)
  qed
qed

subsection \<open>The loop over the miners\<close>

lemma selection_bucket:
  "map_of nsm m = Some b \<Longrightarrow>
   (if F \<noteq> {} then fst ` set b \<inter> F else fst ` set b) = selection nsm F m"
  by (simp add: selection_def public_names_def)

lemma selection_subset: "map_of nsm m = Some b \<Longrightarrow> selection nsm F m \<subseteq> fst ` set b"
  by (auto simp: selection_def public_names_def)

lemma finite_selection: "finite (selection nsm F m)"
  by (auto simp: selection_def public_names_def split: option.split)

lemma set_selected: "set (selected nsm F m) = selection nsm F m"
  by (simp add: selected_def finite_selection)

lemma selected_Nil: "selected nsm F m = [] \<longleftrightarrow> selection nsm F m = {}"
  using set_selected[of nsm F m] by (metis set_empty)

lemma miners_loop_step:
  assumes "miners_loop E ws nsm F (m # ms) P s = (r, tr, P', s')"
  obtains
    (keyerror) "map_of nsm m = None"
  | (skip) b where "map_of nsm m = Some b" and "selection nsm F m = {}"
      and "miners_loop E ws nsm F ms P s = (r, tr, P', s')"
  | (abort) b e trn where "map_of nsm m = Some b" and "selection nsm F m \<noteq> {}"
      and "names_loop E ws m b (selected nsm F m) P s = (Some e, trn, P', s')"
      and "r = Some e" and "tr = MinerHeader m # trn"
  | (continue) b trn P1 s1 tr2 where "map_of nsm m = Some b" and "selection nsm F m \<noteq> {}"
      and "names_loop E ws m b (selected nsm F m) P s = (None, trn, P1, s1)"
      and "miners_loop E ws nsm F ms P1 s1 = (r, tr2, P', s')"
      and "tr = MinerHeader m # trn @ tr2"
proof (cases "map_of nsm m")
  case None
  then show ?thesis by (rule keyerror)
next
  case (Some b)
  note sel = selection_bucket[OF Some, of F]
  show ?thesis
  proof (cases "selection nsm F m = {}")
    case True
    then show ?thesis using assms Some sel skip by (simp add: Let_def)
  next
    case False
    obtain rn trn Pn sn where nl: "names_loop E ws m b (selected nsm F m) P s = (rn, trn, Pn, sn)"
      by (cases "names_loop E ws m b (selected nsm F m) P s") auto
    show ?thesis
    proof (cases rn)
      case None
      obtain r2 tr2 P2 s2 where rec: "miners_loop E ws nsm F ms Pn sn = (r2, tr2, P2, s2)"
        by (cases "miners_loop E ws nsm F ms Pn sn") auto
      show ?thesis
        using assms Some sel False nl None rec continue[of b trn Pn sn tr2]
        by (simp add: Let_def selected_def)
    next
      case (Some e)
      then show ?thesis
        using assms \<open>map_of nsm m = Some b\<close> sel False nl abort[of b e trn]
        by (simp add: Let_def selected_def)
    qed
  qed
qed

lemma selected_subset: "map_of nsm m = Some b \<Longrightarrow> set (selected nsm F m) \<subseteq> fst ` set b"
  by (simp add: set_selected selection_subset)

lemma miners_loop_outcome:
  "set ms \<subseteq> fst ` set nsm \<Longrightarrow> miners_loop E ws nsm F ms P s = (r, tr, P', s') \<Longrightarrow>
     outcome_ok r tr"
proof (induction ms arbitrary: P s r tr P' s')
  case Nil
  then show ?case by (simp add: outcome_ok_def)
next
  case (Cons m ms)
  have sub: "set ms \<subseteq> fst ` set nsm" and mem: "m \<in> fst ` set nsm" using Cons.prems(1) by auto
  from Cons.prems(2) show ?case
  proof (cases rule: miners_loop_step)
    case keyerror
    then show ?thesis using mem by (simp add: map_of_eq_None_iff)
  next
    case (skip b)
    then show ?thesis using Cons.IH[OF sub skip(3)] by simp
  next
    case (abort b e trn)
    then show ?thesis using names_loop_outcome[OF selected_subset[OF abort(1)] abort(3)]
      by (simp add: outcome_ok_Cons)
  next
    case (continue b trn P1 s1 tr2)
    have "uncaught trn = []"
      using names_loop_outcome[OF selected_subset[OF continue(1)] continue(3)]
      by (simp add: outcome_ok_def)
    then show ?thesis using continue Cons.IH[OF sub continue(4)]
      by (simp add: outcome_ok_Cons outcome_ok_append)
  qed
qed

lemma miners_loop_headers:
  "set ms \<subseteq> fst ` set nsm \<Longrightarrow> miners_loop E ws nsm F ms P s = (r, tr, P', s') \<Longrightarrow>
     prefix (headers tr) (filter (\<lambda>m. selection nsm F m \<noteq> {}) ms)
     \<and> (r = None \<longrightarrow> headers tr = filter (\<lambda>m. selection nsm F m \<noteq> {}) ms)"
proof (induction ms arbitrary: P s r tr P' s')
  case Nil
  then show ?case by (simp add: proj_simps)
next
  case (Cons m ms)
  have sub: "set ms \<subseteq> fst ` set nsm" and mem: "m \<in> fst ` set nsm" using Cons.prems(1) by auto
  from Cons.prems(2) show ?case
  proof (cases rule: miners_loop_step)
    case keyerror
    then show ?thesis using mem by (simp add: map_of_eq_None_iff)
  next
    case (skip b)
    then show ?thesis using Cons.IH[OF sub skip(3)] by simp
  next
    case (abort b e trn)
    then show ?thesis using names_loop_others[OF selected_subset[OF abort(1)] abort(3)]
      by (simp add: proj_simps)
  next
    case (continue b trn P1 s1 tr2)
    then show ?thesis
      using names_loop_others[OF selected_subset[OF continue(1)] continue(3)]
        Cons.IH[OF sub continue(4)]
      by (simp add: proj_simps)
  qed
qed

lemma miners_loop_processed:
  "set ms \<subseteq> fst ` set nsm \<Longrightarrow> miners_loop E ws nsm F ms P s = (r, tr, P', s') \<Longrightarrow>
     P' = P \<union> snd ` set (processing tr)
     \<and> prefix (processing tr)
          (concat (map (\<lambda>m. map (Pair m) (selected nsm F m)) (headers tr)))
     \<and> (r = None \<longrightarrow>
          processing tr = concat (map (\<lambda>m. map (Pair m) (selected nsm F m)) (headers tr)))
     \<and> map (\<lambda>f. (fst f, fst (snd f))) (fetches tr) = processing tr"
proof (induction ms arbitrary: P s r tr P' s')
  case Nil
  then show ?case by (simp add: proj_simps)
next
  case (Cons m ms)
  have sub: "set ms \<subseteq> fst ` set nsm" and mem: "m \<in> fst ` set nsm" using Cons.prems(1) by auto
  from Cons.prems(2) show ?case
  proof (cases rule: miners_loop_step)
    case keyerror
    then show ?thesis using mem by (simp add: map_of_eq_None_iff)
  next
    case (skip b)
    then show ?thesis using Cons.IH[OF sub skip(3)] by simp
  next
    case (abort b e trn)
    then show ?thesis
      using names_loop_others[OF selected_subset[OF abort(1)] abort(3)]
        names_loop_processed[OF selected_subset[OF abort(1)] abort(3)]
      by (simp add: proj_simps)
  next
    case (continue b trn P1 s1 tr2)
    then show ?thesis
      using names_loop_others[OF selected_subset[OF continue(1)] continue(3)]
        names_loop_processed[OF selected_subset[OF continue(1)] continue(3)]
        Cons.IH[OF sub continue(4)]
      by (auto simp: proj_simps)
  qed
qed

lemma planned_fetches_Cons:
  "planned_fetches nsm F (m # ms) =
     concat (map (\<lambda>p. case lookup nsm m p of None \<Rightarrow> [] | Some n \<Rightarrow> [(m, p, n)])
               (selected nsm F m)) @ planned_fetches nsm F ms"
  by (simp add: planned_fetches_def)

lemma miners_loop_calls:
  "set ms \<subseteq> fst ` set nsm \<Longrightarrow> miners_loop E ws nsm F ms P s = (None, tr, P', s') \<Longrightarrow>
     fetches tr = planned_fetches nsm F ms
     \<and> writes tr = concat (map (\<lambda>r. map (\<lambda>w. (w, fst r, snd r)) ws) (returned tr))"
proof (induction ms arbitrary: P s tr P' s')
  case Nil
  then show ?case by (simp add: proj_simps planned_fetches_def)
next
  case (Cons m ms)
  have sub: "set ms \<subseteq> fst ` set nsm" and mem: "m \<in> fst ` set nsm" using Cons.prems(1) by auto
  from Cons.prems(2) show ?case
  proof (cases rule: miners_loop_step)
    case keyerror
    then show ?thesis using mem by (simp add: map_of_eq_None_iff)
  next
    case (skip b)
    then show ?thesis using Cons.IH[OF sub skip(3)]
      by (simp add: planned_fetches_Cons selected_Nil[THEN iffD2])
  next
    case (abort b e trn)
    then show ?thesis by simp
  next
    case (continue b trn P1 s1 tr2)
    have "lookup nsm m p = map_of b p" for p
      using continue(1) by (simp add: lookup_def)
    then show ?thesis
      using continue names_loop_calls[OF selected_subset[OF continue(1)] continue(3)]
        Cons.IH[OF sub continue(4)]
      by (simp add: proj_simps planned_fetches_Cons)
  qed
qed

lemma miners_loop_others:
  "set ms \<subseteq> fst ` set nsm \<Longrightarrow> miners_loop E ws nsm F ms P s = (r, tr, P', s') \<Longrightarrow>
     missing tr = [] \<and> filter is_missing tr = []
     \<and> with_reports (filter (\<lambda>ev. \<not> is_report ev) tr) = tr
     \<and> recorded seen tr"
proof (induction ms arbitrary: P s r tr P' s' seen)
  case Nil
  then show ?case by (simp add: proj_simps)
next
  case (Cons m ms)
  have sub: "set ms \<subseteq> fst ` set nsm" and mem: "m \<in> fst ` set nsm" using Cons.prems(1) by auto
  from Cons.prems(2) show ?case
  proof (cases rule: miners_loop_step)
    case keyerror
    then show ?thesis using mem by (simp add: map_of_eq_None_iff)
  next
    case (skip b)
    then show ?thesis using Cons.IH[OF sub skip(3)] by simp
  next
    case (abort b e trn)
    then show ?thesis
      using names_loop_others[OF selected_subset[OF abort(1)] abort(3)]
        names_loop_recorded[OF selected_subset[OF abort(1)] abort(3)]
      by (simp add: proj_simps)
  next
    case (continue b trn P1 s1 tr2)
    then show ?thesis
      using names_loop_others[OF selected_subset[OF continue(1)] continue(3)]
        names_loop_recorded[OF selected_subset[OF continue(1)] continue(3)]
        Cons.IH[OF sub continue(4)]
      by (simp add: proj_simps recorded_append)
  qed
qed

subsection \<open>The run as a whole\<close>

lemma register_keys: "fst ` set (register nsm m p n) = insert m (fst ` set nsm)"
  by (simp add: register_def dom_update)

lemma register_all_keys:
  "fst ` set (register_all nsm regs) = fst ` set nsm \<union> fst ` set regs"
proof (induction regs arbitrary: nsm)
  case Nil
  then show ?case by (simp add: register_all_def)
next
  case (Cons r regs)
  have "register_all nsm (r # regs) = register_all (register nsm (fst r) (fst (snd r)) (snd (snd r))) regs"
    by (simp add: register_all_def)
  then show ?case using Cons.IH[of "register nsm (fst r) (fst (snd r)) (snd (snd r))"]
    by (auto simp: register_keys)
qed

lemma compute_keys: "fst ` set (compute_name_source_map E miners) \<subseteq> set miners"
proof
  fix m
  assume "m \<in> fst ` set (compute_name_source_map E miners)"
  then have "m \<in> fst ` set (all_regs E miners)"
    by (simp add: compute_name_source_map_regs register_all_keys)
  then obtain p n where "(m, p, n) \<in> set (all_regs E miners)" by force
  then show "m \<in> set miners" by (simp add: set_all_regs set_producers)
qed

lemma selection_key: "selection nsm F m \<noteq> {} \<Longrightarrow> m \<in> fst ` set nsm"
proof -
  assume "selection nsm F m \<noteq> {}"
  then have "public_names nsm m \<noteq> {}" by (auto simp: selection_def split: if_splits)
  then have "map_of nsm m \<noteq> None" by (auto simp: public_names_def)
  then show ?thesis by (simp add: map_of_eq_None_iff)
qed

lemma index_less: "a \<in> set xs \<Longrightarrow> index xs a < length xs \<and> xs ! index xs a = a"
  by (induction xs) auto

lemma index_inj: "a \<in> set xs \<Longrightarrow> b \<in> set xs \<Longrightarrow> index xs a = index xs b \<Longrightarrow> a = b"
  using index_less by metis

lemma sort_key_index_sorted:
  assumes "distinct ks" and "set ks \<subseteq> set xs"
  shows "sorted_wrt (\<lambda>a b. index xs a < index xs b) (sort_key (index xs) ks)"
proof -
  let ?o = "sort_key (index xs) ks"
  have s: "sorted (map (index xs) ?o)" by (rule sorted_sort_key)
  have "inj_on (index xs) (set xs)" by (intro inj_onI) (rule index_inj)
  then have "inj_on (index xs) (set ?o)"
    using assms(2) by (auto intro: inj_on_subset)
  moreover have "distinct ?o" using assms(1) by simp
  ultimately have d: "distinct (map (index xs) ?o)" by (simp add: distinct_map)
  from s d have "sorted_wrt (<) (map (index xs) ?o)" by (simp add: strict_sorted_iff)
  then show ?thesis by (simp add: sorted_wrt_map)
qed

lemma finite_names_of: "finite (names_of segs)"
  by (simp add: names_of_def)

lemma finite_parse_filter: "parse_filter fs = Inr F \<Longrightarrow> finite F"
  using finite_names_of[of "entries fs"]
  by (auto simp: parse_filter_spec split: option.splits if_splits)

lemma missing_report_props:
  "headers (missing_report F P :: ('m, 'w, 'd) event list) = []
   \<and> processing (missing_report F P :: ('m, 'w, 'd) event list) = []
   \<and> fetches (missing_report F P :: ('m, 'w, 'd) event list) = []
   \<and> returned (missing_report F P :: ('m, 'w, 'd) event list) = []
   \<and> writes (missing_report F P :: ('m, 'w, 'd) event list) = []
   \<and> uncaught (missing_report F P :: ('m, 'w, 'd) event list) = []
   \<and> filter (\<lambda>ev. \<not> is_report ev) (missing_report F P :: ('m, 'w, 'd) event list)
        = missing_report F P
   \<and> with_reports (missing_report F P :: ('m, 'w, 'd) event list) = missing_report F P
   \<and> filter is_missing (missing_report F P :: ('m, 'w, 'd) event list) = missing_report F P
   \<and> recorded seen (missing_report F P :: ('m, 'w, 'd) event list)"
proof -
  have a: "headers (map MissingName xs :: ('m, 'w, 'd) event list) = []
    \<and> processing (map MissingName xs :: ('m, 'w, 'd) event list) = []
    \<and> fetches (map MissingName xs :: ('m, 'w, 'd) event list) = []
    \<and> returned (map MissingName xs :: ('m, 'w, 'd) event list) = []
    \<and> writes (map MissingName xs :: ('m, 'w, 'd) event list) = []
    \<and> uncaught (map MissingName xs :: ('m, 'w, 'd) event list) = []
    \<and> filter (\<lambda>ev. \<not> is_report ev) (map MissingName xs :: ('m, 'w, 'd) event list)
         = map MissingName xs
    \<and> with_reports (map MissingName xs :: ('m, 'w, 'd) event list) = map MissingName xs
    \<and> filter is_missing (map MissingName xs :: ('m, 'w, 'd) event list) = map MissingName xs
    \<and> recorded seen (map MissingName xs :: ('m, 'w, 'd) event list)" for xs
    by (induction xs) (simp_all add: proj_simps)
  show ?thesis using a by (simp add: missing_report_def Let_def proj_simps)
qed

lemma name_source_map_cache_ok:
  assumes "cache_ok E fm"
  shows "fst (name_source_map E fm) = compute_name_source_map E (fm_miners fm)"
    and "fm_miners (snd (name_source_map E fm)) = fm_miners fm"
    and "fm_writers (snd (name_source_map E fm)) = fm_writers fm"
    and "cache_ok E (snd (name_source_map E fm))"
  using assms by (auto simp: cache_ok_def name_source_map_def Let_def split: option.splits)

lemma run_cases:
  assumes "cache_ok E fm" and "parse_filter fs = Inr F" and "run E fm fs s = (r, tr, s', fm')"
  obtains
    (completed) tr0 P where
      "miners_loop E (fm_writers fm) (compute_name_source_map E (fm_miners fm)) F
         (sort_key (index (fm_miners fm)) (map fst (compute_name_source_map E (fm_miners fm))))
         {} s = (None, tr0, P, s')"
      and "r = None" and "tr = tr0 @ missing_report F P"
  | (aborted) e P where
      "miners_loop E (fm_writers fm) (compute_name_source_map E (fm_miners fm)) F
         (sort_key (index (fm_miners fm)) (map fst (compute_name_source_map E (fm_miners fm))))
         {} s = (Some e, tr, P, s')"
      and "r = Some e"
proof -
  let ?nsm = "compute_name_source_map E (fm_miners fm)"
  let ?order = "sort_key (index (fm_miners fm)) (map fst ?nsm)"
  obtain nsm fm1 where n: "name_source_map E fm = (nsm, fm1)" by (cases "name_source_map E fm")
  have nsm: "nsm = ?nsm" and m1: "fm_miners fm1 = fm_miners fm" and w1: "fm_writers fm1 = fm_writers fm"
    using name_source_map_cache_ok[OF assms(1)] n by simp_all
  have keys: "list_all (\<lambda>miner. miner \<in> set (fm_miners fm)) (map fst ?nsm)"
    using compute_keys[of E "fm_miners fm"] by (auto simp: list_all_iff)
  obtain r0 tr0 P s1 where ml: "miners_loop E (fm_writers fm) ?nsm F ?order {} s = (r0, tr0, P, s1)"
    by (cases "miners_loop E (fm_writers fm) ?nsm F ?order {} s") auto
  have "\<not> \<not> list_all (\<lambda>miner. miner \<in> set (fm_miners fm1)) (map fst nsm)"
    using keys by (simp only: nsm m1 not_not)
  then have "run E fm fs s =
      (case miners_loop E (fm_writers fm1) nsm F
              (sort_key (index (fm_miners fm1)) (map fst nsm)) {} s of
         (Some e, tr, P, s1) \<Rightarrow> (Some e, tr, s1, fm1)
       | (None, tr, P, s1) \<Rightarrow> (None, tr @ missing_report F P, s1, fm1))"
    unfolding run_def assms(2) n by (simp only: sum.case prod.case if_False)
  then have run: "run E fm fs s =
      (case r0 of Some e \<Rightarrow> (Some e, tr0, s1, fm1)
       | None \<Rightarrow> (None, tr0 @ missing_report F P, s1, fm1))"
    unfolding nsm m1 w1 ml by (simp only: prod.case)
  show thesis
  proof (cases r0)
    case None
    then have "r = None" "tr = tr0 @ missing_report F P" "s' = s1"
      using run assms(3) by simp_all
    then show ?thesis using ml None completed[of tr0 P] by simp
  next
    case (Some e)
    then have "r = Some e" "tr = tr0" "s' = s1"
      using run assms(3) by simp_all
    then show ?thesis using ml Some aborted[of e P] by simp
  qed
qed

lemma uncaught_of_not_Exception: "uncaught_of ev = [e] \<Longrightarrow> \<not> is_Exception e"
proof (cases ev)
  case (Fetch m p n r)
  then show "uncaught_of ev = [e] \<Longrightarrow> \<not> is_Exception e"
    by (cases r) (auto split: if_splits)
next
  case (Write w p d r)
  then show "uncaught_of ev = [e] \<Longrightarrow> \<not> is_Exception e"
    by (cases r) (auto split: if_splits)
qed simp_all

lemma ends_with_uncaught: "ends_with e tr \<Longrightarrow> uncaught tr = [e]"
proof -
  assume a: "ends_with e tr"
  then have "tr = butlast tr @ [last tr]" by (simp add: ends_with_def)
  then have "uncaught tr = uncaught (butlast tr) @ uncaught_of (last tr)"
    by (metis uncaught_append uncaught_Cons uncaught_Nil append_Nil2)
  then show ?thesis using a by (simp add: ends_with_def)
qed

lemma order_keys:
  "set (sort_key (index miners) (map fst (compute_name_source_map E miners)))
     \<subseteq> fst ` set (compute_name_source_map E miners)"
  by simp

lemma sorted_wrt_prefix: "prefix xs ys \<Longrightarrow> sorted_wrt R ys \<Longrightarrow> sorted_wrt R xs"
  by (auto simp: prefix_def sorted_wrt_append)

lemma order_sorted:
  "sorted_wrt (\<lambda>a b. index miners a < index miners b)
     (sort_key (index miners) (map fst (compute_name_source_map E miners)))"
proof (rule sort_key_index_sorted)
  show "distinct (map fst (compute_name_source_map E miners))" by (rule compute_distinct)
  show "set (map fst (compute_name_source_map E miners)) \<subseteq> set miners"
    using compute_keys[of E miners] by simp
qed

lemma visited_set:
  "{m \<in> set (sort_key (index miners) (map fst (compute_name_source_map E miners))).
      selection (compute_name_source_map E miners) F m \<noteq> {}}
   = {m \<in> set miners. selection (compute_name_source_map E miners) F m \<noteq> {}}"
proof -
  have k: "fst ` set (compute_name_source_map E miners) \<subseteq> set miners"
    by (rule compute_keys)
  have s: "selection (compute_name_source_map E miners) F m \<noteq> {} \<Longrightarrow>
           m \<in> fst ` set (compute_name_source_map E miners)" for m
    by (rule selection_key)
  have o: "set (sort_key (index miners) (map fst (compute_name_source_map E miners)))
           = fst ` set (compute_name_source_map E miners)"
    by simp
  show ?thesis unfolding o using k s by blast
qed

lemma run_trace_order:
  assumes "cache_ok E fm" and "parse_filter fs = Inr F" and "run E fm fs s = (r, tr, s', fm')"
  shows "prefix (headers tr)
           (filter (\<lambda>m. selection (compute_name_source_map E (fm_miners fm)) F m \<noteq> {})
              (sort_key (index (fm_miners fm))
                 (map fst (compute_name_source_map E (fm_miners fm)))))
       \<and> (r = None \<longrightarrow> headers tr =
           filter (\<lambda>m. selection (compute_name_source_map E (fm_miners fm)) F m \<noteq> {})
              (sort_key (index (fm_miners fm))
                 (map fst (compute_name_source_map E (fm_miners fm)))))
       \<and> prefix (processing tr)
           (concat (map (\<lambda>m. map (Pair m)
                      (selected (compute_name_source_map E (fm_miners fm)) F m)) (headers tr)))
       \<and> (r = None \<longrightarrow> processing tr =
           concat (map (\<lambda>m. map (Pair m)
                      (selected (compute_name_source_map E (fm_miners fm)) F m)) (headers tr)))
       \<and> map (\<lambda>f. (fst f, fst (snd f))) (fetches tr) = processing tr"
  using assms
proof (cases rule: run_cases)
  case (completed tr0 P)
  note sub = order_keys[of "fm_miners fm" E]
  note h = miners_loop_headers[OF sub completed(1)]
  note p = miners_loop_processed[OF sub completed(1)]
  show ?thesis using h p completed(2,3) by (simp add: proj_simps missing_report_props)
next
  case (aborted e P)
  note sub = order_keys[of "fm_miners fm" E]
  note h = miners_loop_headers[OF sub aborted(1)]
  note p = miners_loop_processed[OF sub aborted(1)]
  show ?thesis using h p aborted(2) by simp
qed

lemma processing_mem: "(m, p) \<in> set (processing tr) \<longleftrightarrow> Processing m p \<in> set tr"
proof (induction tr)
  case Nil
  then show ?case by (simp add: proj_simps)
next
  case (Cons ev tr)
  then show ?case by (cases ev) (auto simp: proj_simps)
qed

lemma fetches_mem: "Fetch m p n out \<in> set tr \<Longrightarrow> (m, p, n) \<in> set (fetches tr)"
proof (induction tr)
  case Nil
  then show ?case by simp
next
  case (Cons ev tr)
  then show ?case by (cases ev) (auto simp: proj_simps)
qed

lemma recorded_fetch:
  "recorded seen (pre @ Fetch m p n out # post) \<Longrightarrow> (m, p) \<in> seen \<union> set (processing pre)"
  by (simp add: recorded_append)

lemma no_missing: "filter is_missing tr = [] \<Longrightarrow> MissingName p \<notin> set tr"
  by (auto simp: filter_empty_conv)

lemma missing_report_eq:
  "(missing_report F P :: ('m, 'w, 'd) event list) =
     (if F \<noteq> {} \<and> F - P \<noteq> {}
      then MissingHeader # map MissingName (sorted_list_of_set (F - P)) else [])"
  by (simp add: missing_report_def Let_def)

lemma missing_report_mem:
  "finite F \<Longrightarrow> MissingName p \<in> set (missing_report F P :: ('m, 'w, 'd) event list) \<Longrightarrow>
     p \<in> F \<and> p \<notin> P"
  by (auto simp: missing_report_eq split: if_splits)

subsection \<open>Claims about NameSet and the parser\<close>



lemma upt_0_5: "[0..<5] = [0,1,2,3,4]" by (simp add: upt_rec)

lemma upt_0_3: "[0..<3] = [0,1,2]" by (simp add: upt_rec)


lemma upt_0_12: "[0..<12] = [0,1,2,3,4,5,6,7,8,9,10,11]" by (simp add: upt_rec)



text \<open>
  C3. \<open>parse\<close> raises \<open>FilterParseError\<close> in exactly three situations. When the string has
  an offending position (an open parenthesis met inside a group, or a close parenthesis
  met outside one), the error is raised for the first of them, and its message is
  \<^verbatim>\<open>unexpected character "c" at position i\<close>, where \<open>c\<close> is the character at that position
  and \<open>i\<close> is the 0-based position written in decimal: a non-empty string of digits that
  denotes the position and has no leading zero. When there is no offending position and
  the end of the string is still inside a group, the message is
  \<^verbatim>\<open>parenthesis is not closed\<close>. On every other string \<open>parse\<close> returns a set of names.
\<close>

theorem parse_filter_errors:
  "(first_offending s = Some i \<longrightarrow>
       i < length s \<and> offending s i
       \<and> parse_filter s = Inl (FilterParseError
            (''unexpected character '' @ [CHR 0x22, s ! i, CHR 0x22] @ '' at position ''
               @ string_of_nat i))
       \<and> string_of_nat i \<noteq> [] \<and> set (string_of_nat i) \<subseteq> set ''0123456789''
       \<and> (hd (string_of_nat i) = CHR ''0'' \<longrightarrow> i = 0)
       \<and> decimal_value (string_of_nat i) = i)
   \<and> (first_offending s = None \<and> inside s \<longrightarrow>
       parse_filter s = Inl (FilterParseError ''parenthesis is not closed''))
   \<and> (first_offending s = None \<and> \<not> inside s \<longrightarrow> (\<exists>names. parse_filter s = Inr names))"
proof (intro conjI impI)
  assume "first_offending s = Some i"
  then show "i < length s" by (auto simp: first_offending_def find_Some_iff)
next
  assume "first_offending s = Some i"
  then show "offending s i" by (auto simp: first_offending_def find_Some_iff)
next
  assume "first_offending s = Some i"
  then show "parse_filter s = Inl (FilterParseError
            (''unexpected character '' @ [CHR 0x22, s ! i, CHR 0x22] @ '' at position ''
               @ string_of_nat i))"
    by (simp add: parse_filter_spec unexpected_msg_def)
next
  show "string_of_nat i \<noteq> []" by (rule string_of_nat_nonempty)
next
  show "set (string_of_nat i) \<subseteq> set ''0123456789''" by (rule string_of_nat_digits)
next
  assume "hd (string_of_nat i) = CHR ''0''"
  then show "i = 0" by (rule string_of_nat_hd)
next
  show "decimal_value (string_of_nat i) = i" by (rule decimal_value_string_of_nat)
next
  assume "first_offending s = None \<and> inside s"
  then show "parse_filter s = Inl (FilterParseError ''parenthesis is not closed'')"
    by (simp add: parse_filter_spec)
next
  assume "first_offending s = None \<and> \<not> inside s"
  then show "\<exists>names. parse_filter s = Inr names" by (simp add: parse_filter_spec)
qed

theorem parse_filter_errors_witness:
  "first_offending ''a(b(c'' = Some 3
   \<and> parse_filter ''a(b(c'' =
       Inl (FilterParseError
         (''unexpected character '' @ [CHR 0x22] @ ''('' @ [CHR 0x22] @ '' at position 3''))
   \<and> first_offending ''a)b'' = Some 1
   \<and> parse_filter ''a)b'' =
       Inl (FilterParseError
         (''unexpected character '' @ [CHR 0x22] @ '')'' @ [CHR 0x22] @ '' at position 1''))
   \<and> first_offending ''a,b,c,d,e,f)'' = Some 11
   \<and> parse_filter ''a,b,c,d,e,f)'' =
       Inl (FilterParseError
         (''unexpected character '' @ [CHR 0x22] @ '')'' @ [CHR 0x22] @ '' at position 11''))
   \<and> first_offending ''a(b'' = None \<and> inside ''a(b''
   \<and> parse_filter ''a(b'' = Inl (FilterParseError ''parenthesis is not closed'')
   \<and> first_offending ''a,b'' = None \<and> \<not> inside ''a,b''
   \<and> (\<exists>names. parse_filter ''a,b'' = Inr names)"
proof -
  have 1: "first_offending ''a(b(c'' = Some 3"
    by (simp add: first_offending_def offending_def inside_def upt_0_5)
  have 2: "first_offending ''a)b'' = Some 1"
    by (simp add: first_offending_def offending_def inside_def upt_0_3)
  have 3: "first_offending ''a(b'' = None \<and> inside ''a(b''"
    by (simp add: first_offending_def offending_def inside_def upt_0_3)
  have 4: "first_offending ''a,b'' = None \<and> \<not> inside ''a,b''"
    by (simp add: first_offending_def offending_def inside_def upt_0_3)
  have 5: "first_offending ''a,b,c,d,e,f)'' = Some 11"
    by (simp add: first_offending_def offending_def inside_def upt_0_12)
  have 6: "string_of_nat 3 = ''3''" "string_of_nat 1 = ''1''" "string_of_nat 11 = ''11''"
    by code_simp+
  note A = parse_filter_errors[of "''a(b(c''" 3, THEN conjunct1, rule_format, OF 1, unfolded 6]
  note B = parse_filter_errors[of "''a)b''" 1, THEN conjunct1, rule_format, OF 2, unfolded 6]
  note C = parse_filter_errors[of "''a,b,c,d,e,f)''" 11, THEN conjunct1, rule_format, OF 5, unfolded 6]
  note D = parse_filter_errors[of "''a(b''", THEN conjunct2, THEN conjunct1, rule_format, OF 3]
  note E = parse_filter_errors[of "''a,b''", THEN conjunct2, THEN conjunct2, rule_format, OF 4]
  have a: "parse_filter ''a(b(c'' =
       Inl (FilterParseError
         (''unexpected character '' @ [CHR 0x22] @ ''('' @ [CHR 0x22] @ '' at position 3''))"
    using A by simp
  have b: "parse_filter ''a)b'' =
       Inl (FilterParseError
         (''unexpected character '' @ [CHR 0x22] @ '')'' @ [CHR 0x22] @ '' at position 1''))"
    using B by simp
  have c: "parse_filter ''a,b,c,d,e,f)'' =
       Inl (FilterParseError
         (''unexpected character '' @ [CHR 0x22] @ '')'' @ [CHR 0x22] @ '' at position 11''))"
    using C by simp
  show ?thesis using 1 2 3 4 5 a b c D E by (intro conjI) simp_all
qed



subsection \<open>Claims about the resolver\<close>

text \<open>The definitions that evaluate the resolver on a concrete miner list.\<close>

lemmas resolver_eval =
  compute_name_source_map_def build_name_miner_map_def add_producer_def
  resolve_item_def register_def renamed_def lookup_def public_names_def
  producers_def producers_in_def productions_def fresh_names_def

lemma scenario_fresh: "fresh_names scenario_env [0, 1]"
  by (simp add: resolver_eval scenario_env_def)

text \<open>
  C1 (amended). For every miner list with fresh names, that is, where no native name that
  some miner yields is the renamed form of a native name with several producers: a native
  name yielded exactly once, by one miner, has an identity entry (public name equal to the
  native name) in that miner's bucket; a native name yielded two or more times, by
  several miners or repeatedly by one, has in the bucket of each of its producers an
  entry whose public name is the native name followed by \<open>_\<close> and that miner's type name;
  and such a native name is not a public name of any bucket.

  As first stated the claim fails: in \<open>clash_env\<close> the name \<open>z\<close> is produced by exactly one
  miner, which yields it twice, and it gets the renamed entry \<open>z_A\<close> and no identity entry;
  and \<open>x_A\<close>, a native name with two producers, is a public name of miner 0, where it
  stands for \<open>x\<close>.
\<close>

theorem resolver_entries:
  assumes fresh: "fresh_names E miners"
  shows "(producers E miners n = [m] \<longrightarrow>
            lookup (compute_name_source_map E miners) m n = Some n)
       \<and> (length (producers E miners n) > 1 \<and> m \<in> set (producers E miners n) \<longrightarrow>
            lookup (compute_name_source_map E miners) m (renamed E n m) = Some n)
       \<and> (length (producers E miners n) > 1 \<longrightarrow>
            lookup (compute_name_source_map E miners) m' n = None)"
proof (intro conjI impI)
  let ?nsm = "compute_name_source_map E miners"
  {
    assume one: "producers E miners n = [m]"
    then obtain n' where n': "lookup ?nsm m n = Some n'"
      using lookup_compute_defined[of m E miners n n] by auto
    from lookup_compute_Some[OF n'] have a: "m \<in> set (producers E miners n')"
      and b: "if length (producers E miners n') > 1 then n = renamed E n' m else n = n'"
      by simp_all
    have "n = n'"
    proof (cases "length (producers E miners n') > 1")
      case True
      then have "producers E miners (renamed E n' m) = []"
        using fresh a by (simp add: fresh_namesD)
      with b True one show ?thesis by simp
    next
      case False
      with b show ?thesis by simp
    qed
    with n' show "lookup ?nsm m n = Some n" by simp
  }
  {
    assume "length (producers E miners n) > 1 \<and> m \<in> set (producers E miners n)"
    then have many: "length (producers E miners n) > 1" and m: "m \<in> set (producers E miners n)"
      by simp_all
    then obtain n' where n': "lookup ?nsm m (renamed E n m) = Some n'"
      using lookup_compute_defined[of m E miners n "renamed E n m"] by auto
    from lookup_compute_Some[OF n'] have a: "m \<in> set (producers E miners n')"
      and b: "if length (producers E miners n') > 1 then renamed E n m = renamed E n' m
              else renamed E n m = n'"
      by simp_all
    have "n = n'"
    proof (cases "length (producers E miners n') > 1")
      case True
      with b show ?thesis by (simp add: renamed_inject)
    next
      case False
      have "producers E miners (renamed E n m) = []"
        using fresh m many by (simp add: fresh_namesD)
      with False b a show ?thesis by auto
    qed
    with n' show "lookup ?nsm m (renamed E n m) = Some n" by simp
  }
  {
    assume many: "length (producers E miners n) > 1"
    show "lookup ?nsm m' n = None"
    proof (rule ccontr)
      assume "lookup ?nsm m' n \<noteq> None"
      then obtain n' where n': "lookup ?nsm m' n = Some n'" by auto
      from lookup_compute_Some[OF n'] have a: "m' \<in> set (producers E miners n')"
        and b: "if length (producers E miners n') > 1 then n = renamed E n' m' else n = n'"
        by simp_all
      show False
      proof (cases "length (producers E miners n') > 1")
        case True
        then have "producers E miners (renamed E n' m') = []"
          using fresh a by (simp add: fresh_namesD)
        with b True many show False by simp
      next
        case False
        with b many show False by simp
      qed
    qed
  }
qed

theorem resolver_entries_witness:
  "fresh_names scenario_env [0, 1]
   \<and> producers scenario_env [0, 1] ''types'' = [1]
   \<and> lookup (compute_name_source_map scenario_env [0, 1]) 1 ''types'' = Some ''types''
   \<and> producers scenario_env [0, 1] ''items'' = [0, 1]
   \<and> lookup (compute_name_source_map scenario_env [0, 1]) 0 ''items_MinerA'' = Some ''items''
   \<and> lookup (compute_name_source_map scenario_env [0, 1]) 1 ''items_MinerB'' = Some ''items''
   \<and> lookup (compute_name_source_map scenario_env [0, 1]) 0 ''items'' = None
   \<and> lookup (compute_name_source_map scenario_env [0, 1]) 1 ''items'' = None"
proof -
  have 1: "producers scenario_env [0, 1] ''types'' = [1]"
    by (simp add: producers_def producers_in_def productions_def scenario_env_def)
  have 2: "producers scenario_env [0, 1] ''items'' = [0, 1]"
    by (simp add: producers_def producers_in_def productions_def scenario_env_def)
  have 3: "renamed scenario_env ''items'' 0 = ''items_MinerA''"
          "renamed scenario_env ''items'' 1 = ''items_MinerB''"
    by (simp_all add: renamed_def scenario_env_def)
  show ?thesis
    using 1 2 3 scenario_fresh
      resolver_entries[OF scenario_fresh, of "''types''" 1]
      resolver_entries[OF scenario_fresh, of "''items''" 0 0]
      resolver_entries[OF scenario_fresh, of "''items''" 1 1]
    by simp
qed

theorem resolver_entries_counterexample:
  "set (producers clash_env [0, 1] ''z'') = {0}
   \<and> lookup (compute_name_source_map clash_env [0, 1]) 0 ''z'' = None
   \<and> lookup (compute_name_source_map clash_env [0, 1]) 0 ''z_A'' = Some ''z''
   \<and> producers clash_env [0, 1] ''x_A'' = [0, 1]
   \<and> lookup (compute_name_source_map clash_env [0, 1]) 0 ''x_A'' = Some ''x''"
  by (simp add: resolver_eval clash_env_def)

text \<open>
  C5 (amended). In the resolver's output the miners that are keys are pairwise distinct and
  within one miner's bucket the public names are pairwise distinct, so every public name
  of a bucket stands for exactly one native name. No public name is in the buckets of two
  different miners, provided that different miners have different type names, that no
  type name contains \<open>_\<close>, and that the miner list has fresh names.

  Without these provisos a public name can be in two buckets: \<open>x_A\<close> in \<open>overlap_env\<close>,
  where miner 1 yields it as a native name; \<open>x_T\<close> in \<open>same_type_env\<close>, where both
  miners have the type name \<open>T\<close>; \<open>x_y_B\<close> in \<open>underscore_env\<close>, where the type name
  \<open>y_B\<close> contains \<open>_\<close>.
\<close>

theorem public_names_unique:
  "distinct (map fst (compute_name_source_map E miners))
   \<and> list_all (\<lambda>mb. distinct (map fst (snd mb))) (compute_name_source_map E miners)
   \<and> (inj_on (type_name E) (set miners)
        \<and> list_all (\<lambda>m. CHR ''_'' \<notin> set (type_name E m)) miners
        \<and> fresh_names E miners
      \<longrightarrow> (\<forall>m m' p. p \<in> public_names (compute_name_source_map E miners) m
                    \<and> p \<in> public_names (compute_name_source_map E miners) m' \<longrightarrow> m = m'))"
proof (intro conjI impI allI)
  let ?nsm = "compute_name_source_map E miners"
  show "distinct (map fst ?nsm)" by (rule compute_distinct)
  show "list_all (\<lambda>mb. distinct (map fst (snd mb))) ?nsm"
    using compute_buckets_distinct[of _ _ E miners] by (auto simp: list_all_iff)
  fix m m' p
  assume hyp: "inj_on (type_name E) (set miners)
        \<and> list_all (\<lambda>m. CHR ''_'' \<notin> set (type_name E m)) miners \<and> fresh_names E miners"
  then have inj: "inj_on (type_name E) (set miners)"
    and und: "\<forall>m\<in>set miners. CHR ''_'' \<notin> set (type_name E m)"
    and fresh: "fresh_names E miners"
    by (simp_all add: list_all_iff)
  assume "p \<in> public_names ?nsm m \<and> p \<in> public_names ?nsm m'"
  then obtain n n' where n: "lookup ?nsm m p = Some n" and n': "lookup ?nsm m' p = Some n'"
    by (auto simp: public_names_lookup)
  from lookup_compute_Some[OF n] have a: "m \<in> set (producers E miners n)"
    and b: "if length (producers E miners n) > 1 then p = renamed E n m else p = n"
    by simp_all
  from lookup_compute_Some[OF n'] have a': "m' \<in> set (producers E miners n')"
    and b': "if length (producers E miners n') > 1 then p = renamed E n' m' else p = n'"
    by simp_all
  have mm: "m \<in> set miners" "m' \<in> set miners" using a a' by (simp_all add: set_producers)
  show "m = m'"
  proof (cases "length (producers E miners n) > 1")
    case True
    note many = True
    then have p: "p = renamed E n m" using b by simp
    have e: "producers E miners (renamed E n m) = []" using fresh a many by (rule fresh_namesD)
    show ?thesis
    proof (cases "length (producers E miners n') > 1")
      case True
      then have "renamed E n m = renamed E n' m'" using b' p by simp
      then have "type_name E m = type_name E m'"
        using und mm by (auto intro: renamed_type_name)
      then show ?thesis using inj mm by (auto dest: inj_onD)
    next
      case False
      then have "p = n'" using b' by simp
      with p e a' show ?thesis by simp
    qed
  next
    case False
    note one = False
    then have p: "p = n" using b by simp
    show ?thesis
    proof (cases "length (producers E miners n') > 1")
      case True
      then have "producers E miners (renamed E n' m') = []" using fresh a' by (simp add: fresh_namesD)
      moreover have "p = renamed E n' m'" using True b' by simp
      ultimately show ?thesis using p a by simp
    next
      case False
      then have "n' = n" using b' p by simp
      then show ?thesis using a a' one by (auto intro: length_le_one_eq[of "producers E miners n"])
    qed
  qed
qed

theorem public_names_unique_witness:
  "inj_on (type_name scenario_env) (set [0, 1])
   \<and> list_all (\<lambda>m. CHR ''_'' \<notin> set (type_name scenario_env m)) [0, 1]
   \<and> fresh_names scenario_env [0, 1]
   \<and> ''types'' \<in> public_names (compute_name_source_map scenario_env [0, 1]) 1
   \<and> ''types'' \<notin> public_names (compute_name_source_map scenario_env [0, 1]) 0
   \<and> distinct (map fst (compute_name_source_map scenario_env [0, 1]))"
proof -
  have 1: "inj_on (type_name scenario_env) (set [0, 1])"
    by (simp add: scenario_env_def)
  have 2: "list_all (\<lambda>m. CHR ''_'' \<notin> set (type_name scenario_env m)) [0, 1]"
    by (simp add: scenario_env_def)
  have 3: "''types'' \<in> public_names (compute_name_source_map scenario_env [0, 1]) 1"
    by (simp add: resolver_eval scenario_env_def)
  from public_names_unique[of scenario_env "[0, 1]"] 1 2 3 scenario_fresh
  have "''types'' \<notin> public_names (compute_name_source_map scenario_env [0, 1]) 0"
    and "distinct (map fst (compute_name_source_map scenario_env [0, 1]))"
    by auto
  with 1 2 3 scenario_fresh show ?thesis by simp
qed

theorem public_names_unique_counterexample:
  "''x_A'' \<in> public_names (compute_name_source_map overlap_env [0, 1]) 0
   \<and> ''x_A'' \<in> public_names (compute_name_source_map overlap_env [0, 1]) 1
   \<and> ''x_T'' \<in> public_names (compute_name_source_map same_type_env [0, 1]) 0
   \<and> ''x_T'' \<in> public_names (compute_name_source_map same_type_env [0, 1]) 1
   \<and> ''x_y_B'' \<in> public_names (compute_name_source_map underscore_env [0, 1]) 0
   \<and> ''x_y_B'' \<in> public_names (compute_name_source_map underscore_env [0, 1]) 1"
  by (simp add: resolver_eval overlap_env_def same_type_env_def underscore_env_def)

text \<open>
  C10 (amended). If the enumeration of a single registered miner yields the same native
  name more than once, the resolver records that miner more than once as a producer of
  the name and takes the collision branch: among the registrations it performs there is
  the renamed public name (native name, \<open>_\<close>, the miner's type name) for that miner and
  no identity entry for the name, even when no other miner produces it. The renamed name
  is a public name of that miner's bucket. The bare native name is a public name of a
  bucket only where it is itself the renamed form of another native name with several
  producers, for which it then stands.

  As first stated the claim fails: the single miner of \<open>twice_env\<close> yields \<open>a_M\<close> twice,
  and the bare \<open>a_M\<close> is a public name of its bucket, where it stands for \<open>a\<close>.
\<close>

theorem repeated_name_renamed:
  assumes "m \<in> set miners" and "2 \<le> count_list (contname_iter E m) n"
  shows "2 \<le> count_list (producers E miners n) m
       \<and> map_of (build_name_miner_map E miners) n = Some (producers E miners n)
       \<and> 1 < length (producers E miners n)
       \<and> (m, renamed E n m, n) \<in> set (all_regs E miners)
       \<and> (\<forall>m'. (m', n, n) \<notin> set (all_regs E miners))
       \<and> renamed E n m \<in> public_names (compute_name_source_map E miners) m
       \<and> (\<forall>m' n'. lookup (compute_name_source_map E miners) m' n = Some n' \<longrightarrow>
             n' \<noteq> n \<and> n = renamed E n' m' \<and> 1 < length (producers E miners n'))"
proof -
  let ?nsm = "compute_name_source_map E miners"
  have "count_list miners m \<noteq> 0" using assms(1) by (simp add: count_list_0_iff)
  then have "1 \<le> count_list miners m" by simp
  then have "1 * 2 \<le> count_list miners m * count_list (contname_iter E m) n"
    using assms(2) by (rule mult_le_mono)
  then have c: "2 \<le> count_list (producers E miners n) m" by (simp add: count_producers)
  moreover have "count_list (producers E miners n) m \<le> length (producers E miners n)"
    by (rule count_le_length)
  ultimately have l: "1 < length (producers E miners n)" by simp
  then have ne: "producers E miners n \<noteq> []" by auto
  have "count_list (producers E miners n) m \<noteq> 0" using c by simp
  then have mem: "m \<in> set (producers E miners n)" by (simp add: count_list_0_iff)
  have r: "(m, renamed E n m, n) \<in> set (all_regs E miners)"
    using mem l by (simp add: set_all_regs)
  have nr: "\<forall>m'. (m', n, n) \<notin> set (all_regs E miners)"
    using l by (simp add: set_all_regs renamed_neq[symmetric])
  have pn: "renamed E n m \<in> public_names ?nsm m"
    using lookup_compute_defined[of m E miners n "renamed E n m"] mem l
    by (auto simp: public_names_lookup)
  have conv: "\<forall>m' n'. lookup ?nsm m' n = Some n' \<longrightarrow>
             n' \<noteq> n \<and> n = renamed E n' m' \<and> 1 < length (producers E miners n')"
  proof (intro allI impI)
    fix m' n'
    assume "lookup ?nsm m' n = Some n'"
    from lookup_compute_Some[OF this]
    have b: "if length (producers E miners n') > 1 then n = renamed E n' m' else n = n'"
      by simp
    show "n' \<noteq> n \<and> n = renamed E n' m' \<and> 1 < length (producers E miners n')"
    proof (cases "length (producers E miners n') > 1")
      case True
      with b show ?thesis using renamed_neq[of E n' m'] by auto
    next
      case False
      with b l show ?thesis by auto
    qed
  qed
  show ?thesis using c l ne r nr pn conv by (simp add: map_of_build_name_miner_map)
qed

theorem repeated_name_renamed_witness:
  "(0::nat) \<in> set [0] \<and> 2 \<le> count_list (contname_iter twice_env (0::nat)) ''a''
   \<and> producers twice_env [0::nat] ''a'' = [0, 0]
   \<and> ''a_M'' \<in> public_names (compute_name_source_map twice_env [0::nat]) 0
   \<and> lookup (compute_name_source_map twice_env [0::nat]) 0 ''a'' = None"
proof -
  have 1: "2 \<le> count_list (contname_iter twice_env (0::nat)) ''a''"
    by (simp add: twice_env_def)
  have 2: "producers twice_env [0::nat] ''a'' = [0, 0]"
    by (simp add: producers_def producers_in_def productions_def twice_env_def)
  have 3: "renamed twice_env ''a'' (0::nat) = ''a_M''"
    by (simp add: renamed_def twice_env_def)
  have 4: "lookup (compute_name_source_map twice_env [0::nat]) 0 ''a'' = None"
    by (simp add: resolver_eval twice_env_def)
  show ?thesis
    using repeated_name_renamed[of "0::nat" "[0]" twice_env "''a''"] 1 2 3 4 by simp
qed

theorem repeated_name_renamed_counterexample:
  "count_list (contname_iter twice_env (0::nat)) ''a_M'' = 2
   \<and> ''a_M'' \<in> public_names (compute_name_source_map twice_env [0::nat]) 0
   \<and> lookup (compute_name_source_map twice_env [0::nat]) 0 ''a_M'' = Some ''a''"
  by (simp add: resolver_eval twice_env_def)

text \<open>
  C8. A new flow manager has an empty cache. The first read of the property computes the
  mapping from the miner list and stores it; every later read returns the stored mapping
  and leaves the flow manager as it is, whatever the miners would enumerate by then, so
  reading twice gives the same result as reading once.
\<close>

theorem name_source_map_memoized:
  "fm_cache (FlowManager miners writers) = None
   \<and> (fm_cache self = None \<longrightarrow>
        fst (name_source_map (E :: ('m, 'w, 'd, 's) env) self) =
          compute_name_source_map E (fm_miners self)
        \<and> fm_cache (snd (name_source_map E self)) = Some (fst (name_source_map E self))
        \<and> fm_miners (snd (name_source_map E self)) = fm_miners self
        \<and> fm_writers (snd (name_source_map E self)) = fm_writers self
        \<and> (\<forall>E' :: ('m, 'w, 'd, 's) env. name_source_map E' (snd (name_source_map E self)) =
                   (fst (name_source_map E self), snd (name_source_map E self))))
   \<and> (fm_cache self = Some nsm \<longrightarrow> name_source_map E self = (nsm, self))"
  by (simp add: FlowManager_def name_source_map_def Let_def)

theorem name_source_map_memoized_witness:
  "fm_cache (FlowManager [0::nat, 1] [0::nat]) = None
   \<and> fst (name_source_map scenario_env (FlowManager [0, 1] [0])) =
       [(0, [(''items_MinerA'', ''items''), (''blueprints'', ''blueprints'')]),
        (1, [(''items_MinerB'', ''items''), (''types'', ''types'')])]
   \<and> fst (name_source_map clash_env (snd (name_source_map scenario_env (FlowManager [0, 1] [0])))) =
       [(0, [(''items_MinerA'', ''items''), (''blueprints'', ''blueprints'')]),
        (1, [(''items_MinerB'', ''items''), (''types'', ''types'')])]"
proof -
  have 1: "compute_name_source_map scenario_env [0, 1] =
       [(0, [(''items_MinerA'', ''items''), (''blueprints'', ''blueprints'')]),
        (1, [(''items_MinerB'', ''items''), (''types'', ''types'')])]"
    by (simp add: resolver_eval scenario_env_def)
  have 2: "fm_miners (FlowManager [0::nat, 1] [0::nat]) = [0, 1]"
    by (simp add: FlowManager_def)
  let ?fm = "FlowManager [0::nat, 1] [0::nat]"
  note T = name_source_map_memoized[of "[0::nat, 1]" "[0::nat]" ?fm scenario_env "[]"]
  have c: "fm_cache ?fm = None"
    by (simp add: FlowManager_def)
  have a: "fst (name_source_map scenario_env ?fm) =
           compute_name_source_map scenario_env (fm_miners ?fm)"
    using T c by simp
  have b: "name_source_map clash_env (snd (name_source_map scenario_env ?fm)) =
           (fst (name_source_map scenario_env ?fm), snd (name_source_map scenario_env ?fm))"
    using T c by blast
  show ?thesis using a b c 1 2 by simp
qed

subsection \<open>Claims about the run\<close>

text \<open>The definitions that evaluate a run on concrete collaborators.\<close>

lemmas run_eval =
  run_def parse_filter_def finditer_def special_def NameSet_add_def strip_def isspace_def
  slice_def FlowManager_def name_source_map_def missing_report_def Let_def

text \<open>
  A consistent cache is an invariant: a new flow manager has one, and a run keeps it
  and leaves the miners and the writers as they are.
\<close>

lemma run_flow_manager:
  "snd (snd (snd (run E fm fs s))) =
     (case parse_filter fs of Inl e \<Rightarrow> fm | Inr F \<Rightarrow> snd (name_source_map E fm))"
  by (simp add: run_def split: sum.split prod.split option.split)

lemma run_cache_ok:
  assumes "cache_ok E fm" and "run E fm fs s = (r, tr, s', fm')"
  shows "cache_ok E fm' \<and> fm_miners fm' = fm_miners fm \<and> fm_writers fm' = fm_writers fm"
proof -
  have "fm' = (case parse_filter fs of Inl e \<Rightarrow> fm | Inr F \<Rightarrow> snd (name_source_map E fm))"
    using run_flow_manager[of E fm fs s] assms(2) by simp
  then show ?thesis
    using assms(1) name_source_map_cache_ok[OF assms(1)] by (simp split: sum.splits)
qed

text \<open>Example runs, evaluated.\<close>

lemma FlowManager_cache_ok: "cache_ok E (FlowManager miners writers)"
  by (simp add: cache_ok_def FlowManager_def)

lemma FlowManager_sel:
  "fm_miners (FlowManager miners writers) = miners"
  "fm_writers (FlowManager miners writers) = writers"
  "fm_cache (FlowManager miners writers) = None"
  by (simp_all add: FlowManager_def)

lemma parse_empty: "parse_filter [] = Inr {}"
  by (simp add: parse_filter_def finditer_def NameSet_add_def strip_def)

lemma parse_requested: "parse_filter ''types, foo,bar'' = Inr {''types'', ''foo'', ''bar''}"
  by (auto simp: parse_filter_def finditer_def special_def NameSet_add_def strip_def isspace_def
        slice_def upt_rec)

lemma scenario_run:
  "run scenario_env (FlowManager [0, 1] [0, 1]) [] 0 =
    (None,
     [MinerHeader 0,
      Processing 0 ''blueprints'',
      Fetch 0 ''blueprints'' ''blueprints'' (Inr ''blueprints-data''),
      Write 0 ''blueprints'' ''blueprints-data'' (Inl (ExceptionSub ''OSError'' ''full'')),
      WriteFailed 0 ''blueprints'' (ExceptionSub ''OSError'' ''full''),
      Write 1 ''blueprints'' ''blueprints-data'' (Inr ()),
      Processing 0 ''items_MinerA'',
      Fetch 0 ''items_MinerA'' ''items'' (Inr ''items-data''),
      Write 0 ''items_MinerA'' ''items-data'' (Inr ()),
      Write 1 ''items_MinerA'' ''items-data'' (Inr ()),
      MinerHeader 1,
      Processing 1 ''items_MinerB'',
      Fetch 1 ''items_MinerB'' ''items'' (Inr ''items-data''),
      Write 0 ''items_MinerB'' ''items-data'' (Inr ()),
      Write 1 ''items_MinerB'' ''items-data'' (Inr ()),
      Processing 1 ''types'',
      Fetch 1 ''types'' ''types'' (Inl (ExceptionSub ''IOError'' ''boom'')),
      FetchFailed 1 ''types'' (ExceptionSub ''IOError'' ''boom'')],
     10,
     \<lparr>fm_miners = [0, 1], fm_writers = [0, 1],
      fm_cache = Some [(0, [(''items_MinerA'', ''items''), (''blueprints'', ''blueprints'')]),
                       (1, [(''items_MinerB'', ''items''), (''types'', ''types'')])]\<rparr>)"
  by (simp add: run_eval resolver_eval scenario_env_def)

lemma reversed_run:
  "run scenario_env (FlowManager [1, 0] [0]) [] 0 =
    (None,
     [MinerHeader 1,
      Processing 1 ''items_MinerB'',
      Fetch 1 ''items_MinerB'' ''items'' (Inr ''items-data''),
      Write 0 ''items_MinerB'' ''items-data'' (Inr ()),
      Processing 1 ''types'',
      Fetch 1 ''types'' ''types'' (Inl (ExceptionSub ''IOError'' ''boom'')),
      FetchFailed 1 ''types'' (ExceptionSub ''IOError'' ''boom''),
      MinerHeader 0,
      Processing 0 ''blueprints'',
      Fetch 0 ''blueprints'' ''blueprints'' (Inr ''blueprints-data''),
      Write 0 ''blueprints'' ''blueprints-data'' (Inl (ExceptionSub ''OSError'' ''full'')),
      WriteFailed 0 ''blueprints'' (ExceptionSub ''OSError'' ''full''),
      Processing 0 ''items_MinerA'',
      Fetch 0 ''items_MinerA'' ''items'' (Inr ''items-data''),
      Write 0 ''items_MinerA'' ''items-data'' (Inr ())],
     7,
     \<lparr>fm_miners = [1, 0], fm_writers = [0],
      fm_cache = Some [(1, [(''items_MinerB'', ''items''), (''types'', ''types'')]),
                       (0, [(''items_MinerA'', ''items''), (''blueprints'', ''blueprints'')])]\<rparr>)"
  by (simp add: run_eval resolver_eval scenario_env_def)

lemma requested_run:
  "run scenario_env (FlowManager [0, 1] [0, 1]) ''types, foo,bar'' 0 =
    (None,
     [MinerHeader 1,
      Processing 1 ''types'',
      Fetch 1 ''types'' ''types'' (Inl (ExceptionSub ''IOError'' ''boom'')),
      FetchFailed 1 ''types'' (ExceptionSub ''IOError'' ''boom''),
      MissingHeader, MissingName ''bar'', MissingName ''foo''],
     1,
     \<lparr>fm_miners = [0, 1], fm_writers = [0, 1],
      fm_cache = Some [(0, [(''items_MinerA'', ''items''), (''blueprints'', ''blueprints'')]),
                       (1, [(''items_MinerB'', ''items''), (''types'', ''types'')])]\<rparr>)"
  by (simp add: run_eval resolver_eval scenario_env_def upt_rec insert_Diff_if)

lemma interrupted_run:
  "run interrupted_env (FlowManager [0, 1] [0, 1]) [] 0 =
    (Some KeyboardInterrupt,
     [MinerHeader 0,
      Processing 0 ''blueprints'',
      Fetch 0 ''blueprints'' ''blueprints'' (Inr ''blueprints-data''),
      Write 0 ''blueprints'' ''blueprints-data'' (Inr ()),
      Write 1 ''blueprints'' ''blueprints-data'' (Inr ()),
      Processing 0 ''items_MinerA'',
      Fetch 0 ''items_MinerA'' ''items'' (Inr ''items-data''),
      Write 0 ''items_MinerA'' ''items-data'' (Inr ()),
      Write 1 ''items_MinerA'' ''items-data'' (Inl KeyboardInterrupt)],
     6,
     \<lparr>fm_miners = [0, 1], fm_writers = [0, 1],
      fm_cache = Some [(0, [(''items_MinerA'', ''items''), (''blueprints'', ''blueprints'')]),
                       (1, [(''items_MinerB'', ''items''), (''types'', ''types'')])]\<rparr>)"
  by (simp add: run_eval resolver_eval scenario_env_def interrupted_env_def)

text \<open>
  C2 (amended). In a run, every failed fetch or write whose exception is an instance of
  \<open>Exception\<close> is reported on the next line, and nothing else is reported. If no call
  raises an exception outside \<open>Exception\<close>, the run completes: every planned fetch is made,
  whatever other fetches failed, and every writer receives each fetched pair of name and
  data, whatever other writes failed. An exception that is not an instance of
  \<open>Exception\<close>, the user's \<open>KeyboardInterrupt\<close> among them, leaves the run
  from the fetch or the write that raised it: that call is the last event and no earlier
  call raised one.

  As first stated the claim fails where it makes \<open>KeyboardInterrupt\<close> the only exception
  that is not caught: in \<open>exiting_env\<close> the fetch of \<open>items\<close> raises \<open>SystemExit\<close>, which
  leaves the run at once, before anything is fetched from miner 1.
\<close>

theorem run_failure_isolation:
  assumes "cache_ok E fm" and "parse_filter fs = Inr F" and "run E fm fs s = (r, tr, s', fm')"
  shows "with_reports (filter (\<lambda>ev. \<not> is_report ev) tr) = tr
       \<and> (r = None \<longleftrightarrow> uncaught tr = [])
       \<and> (r = None \<longrightarrow>
            fetches tr =
              planned_fetches (compute_name_source_map E (fm_miners fm)) F
                (sort_key (index (fm_miners fm))
                   (map fst (compute_name_source_map E (fm_miners fm))))
            \<and> writes tr =
              concat (map (\<lambda>x. map (\<lambda>w. (w, fst x, snd x)) (fm_writers fm)) (returned tr)))
       \<and> (\<forall>e. r = Some e \<longrightarrow>
            \<not> is_Exception e \<and> tr \<noteq> [] \<and> uncaught_of (last tr) = [e]
            \<and> uncaught (butlast tr) = [])
       \<and> (KeyboardInterrupt \<in> set (uncaught tr) \<longrightarrow> r = Some KeyboardInterrupt)"
  using assms
proof (cases rule: run_cases)
  case (completed tr0 P)
  note sub = order_keys[of "fm_miners fm" E]
  note o = miners_loop_outcome[OF sub completed(1)]
  note c = miners_loop_calls[OF sub completed(1)]
  note x = miners_loop_others[OF sub completed(1), of "{}"]
  note mr = missing_report_props
  have u: "uncaught tr = []" using o completed by (simp add: outcome_ok_def mr)
  have w: "with_reports (filter (\<lambda>ev. \<not> is_report ev) tr) = tr"
    using x completed by (simp add: proj_simps mr)
  have f: "fetches tr = planned_fetches (compute_name_source_map E (fm_miners fm)) F
                (sort_key (index (fm_miners fm))
                   (map fst (compute_name_source_map E (fm_miners fm))))"
    using c completed by (simp add: proj_simps mr)
  have wr: "writes tr =
      concat (map (\<lambda>x. map (\<lambda>w. (w, fst x, snd x)) (fm_writers fm)) (returned tr))"
    using c completed by (simp add: proj_simps mr)
  show ?thesis using u w f wr completed(2) by simp
next
  case (aborted e P)
  note sub = order_keys[of "fm_miners fm" E]
  note o = miners_loop_outcome[OF sub aborted(1)]
  note x = miners_loop_others[OF sub aborted(1), of "{}"]
  have e: "ends_with e tr" using o by (simp add: outcome_ok_def)
  then have u: "uncaught tr = [e]" by (rule ends_with_uncaught)
  have ne: "\<not> is_Exception e" using e by (auto simp: ends_with_def dest: uncaught_of_not_Exception)
  show ?thesis using e u ne x aborted(2) by (simp add: ends_with_def)
qed

theorem run_failure_isolation_witness:
  "cache_ok scenario_env (FlowManager [0, 1] [0, 1])
   \<and> parse_filter [] = Inr {}
   \<and> fst (run scenario_env (FlowManager [0, 1] [0, 1]) [] 0) = None
   \<and> uncaught (fst (snd (run scenario_env (FlowManager [0, 1] [0, 1]) [] 0))) = []
   \<and> fetches (fst (snd (run scenario_env (FlowManager [0, 1] [0, 1]) [] 0))) =
        [(0, ''blueprints'', ''blueprints''), (0, ''items_MinerA'', ''items''),
         (1, ''items_MinerB'', ''items''), (1, ''types'', ''types'')]
   \<and> writes (fst (snd (run scenario_env (FlowManager [0, 1] [0, 1]) [] 0))) =
        [(0, ''blueprints'', ''blueprints-data''), (1, ''blueprints'', ''blueprints-data''),
         (0, ''items_MinerA'', ''items-data''), (1, ''items_MinerA'', ''items-data''),
         (0, ''items_MinerB'', ''items-data''), (1, ''items_MinerB'', ''items-data'')]
   \<and> cache_ok interrupted_env (FlowManager [0, 1] [0, 1])
   \<and> fst (run interrupted_env (FlowManager [0, 1] [0, 1]) [] 0) = Some KeyboardInterrupt
   \<and> \<not> is_Exception KeyboardInterrupt
   \<and> uncaught_of (last (fst (snd (run interrupted_env (FlowManager [0, 1] [0, 1]) [] 0)))) =
        [KeyboardInterrupt]"
proof -
  note T1 = run_failure_isolation[OF FlowManager_cache_ok parse_empty scenario_run]
  note T2 = run_failure_isolation[OF FlowManager_cache_ok parse_empty interrupted_run]
  show ?thesis
    unfolding scenario_run interrupted_run
    using T1 T2
    by (simp add: FlowManager_cache_ok parse_empty proj_simps)
qed

theorem run_failure_isolation_counterexample:
  "run exiting_env (FlowManager [0, 1] [0, 1]) [] 0 =
    (Some (BaseExceptionSub ''SystemExit'' ''1''),
     [MinerHeader 0,
      Processing 0 ''blueprints'',
      Fetch 0 ''blueprints'' ''blueprints'' (Inr ''blueprints-data''),
      Write 0 ''blueprints'' ''blueprints-data'' (Inl (ExceptionSub ''OSError'' ''full'')),
      WriteFailed 0 ''blueprints'' (ExceptionSub ''OSError'' ''full''),
      Write 1 ''blueprints'' ''blueprints-data'' (Inr ()),
      Processing 0 ''items_MinerA'',
      Fetch 0 ''items_MinerA'' ''items'' (Inl (BaseExceptionSub ''SystemExit'' ''1''))],
     4,
     \<lparr>fm_miners = [0, 1], fm_writers = [0, 1],
      fm_cache = Some [(0, [(''items_MinerA'', ''items''), (''blueprints'', ''blueprints'')]),
                       (1, [(''items_MinerB'', ''items''), (''types'', ''types'')])]\<rparr>)"
  by (simp add: run_eval resolver_eval scenario_env_def exiting_env_def)

text \<open>
  C6. A run announces miners strictly in the order of their first positions in the
  registered list, each at most once; they are miners whose selection is not empty, and
  all of those when the run completes. The selection of a miner is its public names in
  the namespace, intersected with the requested names when there are any. After the
  announcement of a miner the names processed are its selected names in sorted order (a
  beginning of them when an uncaught exception ends the run), and names are processed
  and fetched for announced miners only, so a miner with an empty selection leaves no
  trace.
\<close>

theorem run_visits_in_order:
  assumes "cache_ok E fm" and "parse_filter fs = Inr F" and "run E fm fs s = (r, tr, s', fm')"
  shows "sorted_wrt (\<lambda>a b. index (fm_miners fm) a < index (fm_miners fm) b) (headers tr)
       \<and> set (headers tr) \<subseteq>
            {m \<in> set (fm_miners fm).
               selection (compute_name_source_map E (fm_miners fm)) F m \<noteq> {}}
       \<and> (r = None \<longrightarrow> set (headers tr) =
            {m \<in> set (fm_miners fm).
               selection (compute_name_source_map E (fm_miners fm)) F m \<noteq> {}})
       \<and> prefix (processing tr)
            (concat (map (\<lambda>m. map (Pair m)
                       (selected (compute_name_source_map E (fm_miners fm)) F m)) (headers tr)))
       \<and> (r = None \<longrightarrow> processing tr =
            concat (map (\<lambda>m. map (Pair m)
                       (selected (compute_name_source_map E (fm_miners fm)) F m)) (headers tr)))
       \<and> (\<forall>m p. (m, p) \<in> set (processing tr) \<longrightarrow>
             m \<in> set (headers tr)
             \<and> p \<in> selection (compute_name_source_map E (fm_miners fm)) F m)
       \<and> map (\<lambda>f. (fst f, fst (snd f))) (fetches tr) = processing tr
       \<and> (\<forall>m. selection (compute_name_source_map E (fm_miners fm)) F m =
               (if F \<noteq> {} then public_names (compute_name_source_map E (fm_miners fm)) m \<inter> F
                else public_names (compute_name_source_map E (fm_miners fm)) m)
             \<and> selected (compute_name_source_map E (fm_miners fm)) F m =
               sorted_list_of_set (selection (compute_name_source_map E (fm_miners fm)) F m)
             \<and> sorted (selected (compute_name_source_map E (fm_miners fm)) F m)
             \<and> distinct (selected (compute_name_source_map E (fm_miners fm)) F m)
             \<and> set (selected (compute_name_source_map E (fm_miners fm)) F m) =
               selection (compute_name_source_map E (fm_miners fm)) F m)"
proof -
  let ?nsm = "compute_name_source_map E (fm_miners fm)"
  let ?order = "sort_key (index (fm_miners fm)) (map fst ?nsm)"
  let ?vis = "filter (\<lambda>m. selection ?nsm F m \<noteq> {}) ?order"
  note t0 = run_trace_order[OF assms]
  note t = conjunct1[OF t0] conjunct1[OF conjunct2[OF t0]]
    conjunct1[OF conjunct2[OF conjunct2[OF t0]]]
    conjunct1[OF conjunct2[OF conjunct2[OF conjunct2[OF t0]]]]
    conjunct2[OF conjunct2[OF conjunct2[OF conjunct2[OF t0]]]]
  have "sorted_wrt (\<lambda>a b. index (fm_miners fm) a < index (fm_miners fm) b) ?vis"
    by (intro sorted_wrt_filter order_sorted)
  then have 1: "sorted_wrt (\<lambda>a b. index (fm_miners fm) a < index (fm_miners fm) b) (headers tr)"
    using t(1) by (rule sorted_wrt_prefix[rotated])
  have sv: "set ?vis = {m \<in> set (fm_miners fm). selection ?nsm F m \<noteq> {}}"
    using visited_set[of "fm_miners fm" E F] by simp
  have 2: "set (headers tr) \<subseteq> {m \<in> set (fm_miners fm). selection ?nsm F m \<noteq> {}}"
    using set_mono_prefix[OF t(1)] sv by simp
  have 3: "r = None \<longrightarrow> set (headers tr) =
            {m \<in> set (fm_miners fm). selection ?nsm F m \<noteq> {}}"
    using t(2) sv by simp
  have 6: "\<forall>m p. (m, p) \<in> set (processing tr) \<longrightarrow>
             m \<in> set (headers tr) \<and> p \<in> selection ?nsm F m"
    using set_mono_prefix[OF t(3)] by (auto simp: set_selected)
  have 8: "\<forall>m. selection ?nsm F m =
               (if F \<noteq> {} then public_names ?nsm m \<inter> F else public_names ?nsm m)
             \<and> selected ?nsm F m = sorted_list_of_set (selection ?nsm F m)
             \<and> sorted (selected ?nsm F m) \<and> distinct (selected ?nsm F m)
             \<and> set (selected ?nsm F m) = selection ?nsm F m"
  proof (intro allI conjI)
    fix m
    show "selection ?nsm F m =
               (if F \<noteq> {} then public_names ?nsm m \<inter> F else public_names ?nsm m)"
      by (simp only: selection_def)
    show "selected ?nsm F m = sorted_list_of_set (selection ?nsm F m)"
      by (simp only: selected_def)
    show "sorted (selected ?nsm F m)" unfolding selected_def by (rule sorted_sorted_list_of_set)
    show "distinct (selected ?nsm F m)" unfolding selected_def by (rule distinct_sorted_list_of_set)
    show "set (selected ?nsm F m) = selection ?nsm F m" by (rule set_selected)
  qed
  note t3 = t(3) and t4 = t(4) and t5 = t(5)
  show ?thesis by (intro conjI) (fact 1 2 3 t3 t4 6 t5 8)+
qed

theorem run_visits_in_order_witness:
  "cache_ok scenario_env (FlowManager [1, 0] [0])
   \<and> parse_filter [] = Inr {}
   \<and> fst (run scenario_env (FlowManager [1, 0] [0]) [] 0) = None
   \<and> headers (fst (snd (run scenario_env (FlowManager [1, 0] [0]) [] 0))) = [1, 0]
   \<and> index [1, 0] (1::nat) < index [1, 0] (0::nat)
   \<and> processing (fst (snd (run scenario_env (FlowManager [1, 0] [0]) [] 0))) =
        [(1, ''items_MinerB''), (1, ''types''), (0, ''blueprints''), (0, ''items_MinerA'')]
   \<and> parse_filter ''types, foo,bar'' = Inr {''types'', ''foo'', ''bar''}
   \<and> headers (fst (snd (run scenario_env (FlowManager [0, 1] [0, 1]) ''types, foo,bar'' 0)))
        = [1]
   \<and> processing (fst (snd (run scenario_env (FlowManager [0, 1] [0, 1]) ''types, foo,bar'' 0)))
        = [(1, ''types'')]"
proof -
  note T1 = run_visits_in_order[OF FlowManager_cache_ok parse_empty reversed_run]
  note T2 = run_visits_in_order[OF FlowManager_cache_ok parse_requested requested_run]
  have a: "index [1, 0] (1::nat) < index [1, 0] (0::nat)"
    using conjunct1[OF T1] by (simp add: proj_simps FlowManager_sel)
  have b: "sorted_wrt (\<lambda>a b. index [0, 1] a < index [0, 1] b) [1::nat]"
    using conjunct1[OF T2] by (simp add: proj_simps FlowManager_sel)
  show ?thesis
    unfolding reversed_run requested_run
    using a b
    by (simp add: FlowManager_cache_ok parse_empty parse_requested proj_simps)
qed

text \<open>
  C7. In the events of a run every fetch comes after the line that announces its name,
  with which the name is recorded in the processed set: the processed set that the loop
  over the miners returns is the set of the announced names, whether their fetches
  succeeded, failed or were never reached. When the run completes, the missing-names
  report is the end of the events and nothing before it belongs to it; it is there if
  and only if some names were requested and some requested name is not processed, and
  then it lists exactly the requested names that are not processed, in sorted order. A
  run that an exception leaves has no such report. Consequently a name whose fetch was
  attempted, failed or not, is never reported as missing.
\<close>

theorem run_reports_missing:
  assumes "cache_ok E fm" and "parse_filter fs = Inr F" and "run E fm fs s = (r, tr, s', fm')"
  shows "(\<forall>pre m p n out post. tr = pre @ Fetch m p n out # post \<longrightarrow>
            Processing m p \<in> set pre)
       \<and> (\<forall>r0 tr0 P s1.
            miners_loop E (fm_writers fm) (compute_name_source_map E (fm_miners fm)) F
              (sort_key (index (fm_miners fm))
                 (map fst (compute_name_source_map E (fm_miners fm)))) {} s = (r0, tr0, P, s1)
            \<longrightarrow> P = snd ` set (processing tr0) \<and> processing tr0 = processing tr)
       \<and> (r = None \<longrightarrow>
            filter is_missing tr =
              (if F \<noteq> {} \<and> F - snd ` set (processing tr) \<noteq> {}
               then MissingHeader
                      # map MissingName (sorted_list_of_set (F - snd ` set (processing tr)))
               else [])
            \<and> (\<exists>body. tr = body @ filter is_missing tr \<and> filter is_missing body = []))
       \<and> (r \<noteq> None \<longrightarrow> filter is_missing tr = [])
       \<and> (\<forall>m p n out. Fetch m p n out \<in> set tr \<longrightarrow> MissingName p \<notin> set tr)"
  using assms
proof (cases rule: run_cases)
  case (completed tr0 P)
  let ?mr = "missing_report F P :: ('a, 'b, 'c) event list"
  note sub = order_keys[of "fm_miners fm" E]
  note x = miners_loop_others[OF sub completed(1), of "{}"]
  note pr = miners_loop_processed[OF sub completed(1)]
  have fin: "finite F" using assms(2) by (rule finite_parse_filter)
  have P: "P = snd ` set (processing tr0)" using pr by simp
  have ptr: "processing tr = processing tr0"
    using completed(3) by (simp add: proj_simps missing_report_props)
  have rec: "recorded {} tr"
    using x completed(3) by (simp add: recorded_append missing_report_props)
  have 1: "\<forall>pre m p n out post. tr = pre @ Fetch m p n out # post \<longrightarrow>
            Processing m p \<in> set pre"
    using rec recorded_fetch[of "{}"] by (auto simp: processing_mem[symmetric])
  have 2: "\<forall>r0 tr0' P' s1.
            miners_loop E (fm_writers fm) (compute_name_source_map E (fm_miners fm)) F
              (sort_key (index (fm_miners fm))
                 (map fst (compute_name_source_map E (fm_miners fm)))) {} s = (r0, tr0', P', s1)
            \<longrightarrow> P' = snd ` set (processing tr0') \<and> processing tr0' = processing tr"
    using completed(1) P ptr by simp
  have fm: "filter is_missing tr = ?mr"
    using x completed(3) by (simp add: missing_report_props)
  have 3: "filter is_missing tr =
              (if F \<noteq> {} \<and> F - snd ` set (processing tr) \<noteq> {}
               then MissingHeader
                      # map MissingName (sorted_list_of_set (F - snd ` set (processing tr)))
               else [])"
    unfolding fm ptr P[symmetric] by (rule missing_report_eq)
  have 33: "\<exists>body. tr = body @ filter is_missing tr \<and> filter is_missing body = []"
    using x completed(3) fm by auto
  have 5: "\<forall>m p n out. Fetch m p n out \<in> set tr \<longrightarrow> MissingName p \<notin> set tr"
  proof (intro allI impI notI)
    fix m p n out
    assume f: "Fetch m p n out \<in> set tr" and mn: "MissingName p \<in> set tr"
    have "MissingName p \<notin> set tr0" using x by (simp add: no_missing)
    then have "MissingName p \<in> set ?mr" using mn completed(3) by simp
    then have np: "p \<notin> P" using fin missing_report_mem by blast
    have "(m, p, n) \<in> set (fetches tr)" using f by (rule fetches_mem)
    then have "(m, p, n) \<in> set (fetches tr0)"
      using completed(3) by (simp add: proj_simps missing_report_props)
    then have "(m, p) \<in> set (map (\<lambda>f. (fst f, fst (snd f))) (fetches tr0))" by force
    then have "(m, p) \<in> set (processing tr0)" using pr by simp
    then have "p \<in> P" unfolding P by force
    with np show False by simp
  qed
  have 34: "r = None \<longrightarrow>
            filter is_missing tr =
              (if F \<noteq> {} \<and> F - snd ` set (processing tr) \<noteq> {}
               then MissingHeader
                      # map MissingName (sorted_list_of_set (F - snd ` set (processing tr)))
               else [])
            \<and> (\<exists>body. tr = body @ filter is_missing tr \<and> filter is_missing body = [])"
    by (intro impI conjI, rule 3, rule 33)
  have 4: "r \<noteq> None \<longrightarrow> filter is_missing tr = []" using completed(2) by simp
  show ?thesis by (intro conjI) (fact 1 2 34 4 5)+
next
  case (aborted e P)
  note sub = order_keys[of "fm_miners fm" E]
  note x = miners_loop_others[OF sub aborted(1), of "{}"]
  note pr = miners_loop_processed[OF sub aborted(1)]
  have rec: "recorded {} tr" using x by simp
  have 1: "\<forall>pre m p n out post. tr = pre @ Fetch m p n out # post \<longrightarrow>
            Processing m p \<in> set pre"
    using rec recorded_fetch[of "{}"] by (auto simp: processing_mem[symmetric])
  have 2: "\<forall>r0 tr0' P' s1.
            miners_loop E (fm_writers fm) (compute_name_source_map E (fm_miners fm)) F
              (sort_key (index (fm_miners fm))
                 (map fst (compute_name_source_map E (fm_miners fm)))) {} s = (r0, tr0', P', s1)
            \<longrightarrow> P' = snd ` set (processing tr0') \<and> processing tr0' = processing tr"
    using aborted(1) pr by simp
  have 4: "filter is_missing tr = []" using x by simp
  then have 5: "\<forall>m p n out. Fetch m p n out \<in> set tr \<longrightarrow> MissingName p \<notin> set tr"
    by (simp add: no_missing)
  have 34: "r = None \<longrightarrow>
            filter is_missing tr =
              (if F \<noteq> {} \<and> F - snd ` set (processing tr) \<noteq> {}
               then MissingHeader
                      # map MissingName (sorted_list_of_set (F - snd ` set (processing tr)))
               else [])
            \<and> (\<exists>body. tr = body @ filter is_missing tr \<and> filter is_missing body = [])"
    using aborted(2) by simp
  have 44: "r \<noteq> None \<longrightarrow> filter is_missing tr = []" using 4 by simp
  show ?thesis by (intro conjI) (fact 1 2 34 44 5)+
qed

theorem run_reports_missing_witness:
  "cache_ok scenario_env (FlowManager [0, 1] [0, 1])
   \<and> parse_filter ''types, foo,bar'' = Inr {''types'', ''foo'', ''bar''}
   \<and> fst (run scenario_env (FlowManager [0, 1] [0, 1]) ''types, foo,bar'' 0) = None
   \<and> filter is_missing
        (fst (snd (run scenario_env (FlowManager [0, 1] [0, 1]) ''types, foo,bar'' 0))) =
        [MissingHeader, MissingName ''bar'', MissingName ''foo'']
   \<and> Fetch 1 ''types'' ''types'' (Inl (ExceptionSub ''IOError'' ''boom''))
        \<in> set (fst (snd (run scenario_env (FlowManager [0, 1] [0, 1]) ''types, foo,bar'' 0)))
   \<and> MissingName ''types''
        \<notin> set (fst (snd (run scenario_env (FlowManager [0, 1] [0, 1]) ''types, foo,bar'' 0)))
   \<and> parse_filter [] = Inr {}
   \<and> fst (run interrupted_env (FlowManager [0, 1] [0, 1]) [] 0) \<noteq> None
   \<and> filter is_missing (fst (snd (run interrupted_env (FlowManager [0, 1] [0, 1]) [] 0))) = []"
proof -
  note T1 = run_reports_missing[OF FlowManager_cache_ok parse_requested requested_run]
  note T2 = run_reports_missing[OF FlowManager_cache_ok parse_empty interrupted_run]
  show ?thesis
    unfolding requested_run interrupted_run
    using T1 T2
    by (simp add: FlowManager_cache_ok parse_empty parse_requested)
qed

end
